theory Spec2Isabelle
  imports Main
begin

section \<open>Data model of \<open>src/template.go\<close>\<close>

text \<open>
  The Go program works on heap objects that alias each other: several handles may point to
  one \<open>*Template\<close>, every Template points to a shared \<open>*nameSpace\<close>, and the name space's
  map points back to Templates. The model therefore keeps an explicit store: one heap per
  kind of object, addressed by natural numbers, each with an allocation counter (the next
  free address). A Go pointer that may be \<open>nil\<close> is an \<open>option\<close>.
  The mutex \<open>mu\<close> is not modelled (operations are atomic steps of a sequential model), nor
  is the opaque escaper handle \<open>esc\<close>.
\<close>

type_synonym tref = nat      \<comment> \<open>\<open>*Template\<close> of this package\<close>
type_synonym nsref = nat     \<comment> \<open>\<open>*nameSpace\<close>\<close>
type_synonym textref = nat   \<comment> \<open>\<open>*template.Template\<close> of text/template\<close>
type_synonym treeref = nat   \<comment> \<open>\<open>*parse.Tree\<close>\<close>
type_synonym node = string   \<comment> \<open>\<open>*parse.ListNode\<close>, contents abstract\<close>

text \<open>
  Every error value the source builds, one constructor per \<open>fmt.Errorf\<close> site (the two
  "incomplete" messages of \<open>escape\<close> and \<open>lookupAndEscapeTemplate\<close> share one), the sentinel
  \<open>escapeOK\<close>, the opaque errors of the escaper and of the libraries, and panics.
\<close>

datatype error =
    escapeOK                        \<comment> \<open>sentinel "template escaped correctly"\<close>
  | DefinitionAfterExecution        \<comment> \<open>"html/template: cannot Parse after Execute"\<close>
  | IncompleteTemplate string       \<comment> \<open>"... is an incomplete (or empty) template"\<close>
  | UndefinedTemplate string        \<comment> \<open>"html/template: ... is undefined"\<close>
  | CloneAfterExecution string      \<comment> \<open>"html/template: cannot Clone ... after it has executed"\<close>
  | NoFilesNamed                    \<comment> \<open>"html/template: no files named in call to ParseFiles"\<close>
  | PatternMatchesNoFiles string    \<comment> \<open>"html/template: pattern matches no files: ..."\<close>
  | EscapeFailed string             \<comment> \<open>an error returned by the escaper\<close>
  | EngineError string              \<comment> \<open>an error returned by text/template, ioutil or filepath\<close>
  | Panic string                    \<comment> \<open>a run-time panic\<close>

record Template =
  escapeErr :: "error option"       \<comment> \<open>\<open>nil\<close>, \<open>escapeOK\<close> or the sticky escape error\<close>
  textT :: textref                  \<comment> \<open>field \<open>text\<close>\<close>
  Tree :: "treeref option"
  nameSpace :: nsref                \<comment> \<open>the embedded \<open>*nameSpace\<close>\<close>

record nameSpace =
  set_ns :: "string \<rightharpoonup> tref"       \<comment> \<open>field \<open>set\<close>\<close>
  escaped :: bool

subsection \<open>The underlying engine, as far as this package touches it\<close>

text \<open>
  text/template and text/template/parse are libraries outside the repository. The package
  reads a text template's name and \<open>Tree\<close> field, writes the \<open>Tree\<close> field (in \<open>Clone\<close>),
  reads a tree's \<open>Root\<close>, and calls \<open>New\<close>, \<open>Copy\<close>, \<open>Parse\<close>, \<open>AddParseTree\<close>, \<open>Clone\<close>,
  \<open>Templates\<close>, \<open>Lookup\<close> and \<open>Execute\<close>. The engine's objects live in two heaps of their own.
  Text templates are associated in groups: each belongs to one association (\<open>text_common\<close>,
  the address of the structure the group shares), and an association holds its defined
  templates by name (\<open>associated\<close>). The allocators (\<open>New\<close>, \<open>Copy\<close>) and \<open>Lookup\<close> are
  written out below; what \<open>Parse\<close>, \<open>AddParseTree\<close>, \<open>Clone\<close>, \<open>Templates\<close> and \<open>Execute\<close>
  answer is a parameter of the operation that makes the call.
\<close>

type_synonym cref = nat      \<comment> \<open>the structure shared by associated text templates\<close>

record text_Template =
  text_name :: string
  text_Tree :: "treeref option"
  text_common :: cref

record parse_Tree =
  Root :: "node option"

record engine =
  texts :: "textref \<Rightarrow> text_Template"
  trees :: "treeref \<Rightarrow> parse_Tree"
  associated :: "cref \<Rightarrow> string \<rightharpoonup> textref"
  nextText :: nat
  nextTree :: nat
  nextCommon :: nat

text \<open>
  The package-level \<open>template.New(name)\<close>: a new, undefined template of that name, in a new
  association of its own with no defined template.
\<close>

definition text_New :: "engine \<Rightarrow> string \<Rightarrow> engine \<times> textref" where
  "text_New e nm =
     (e\<lparr>texts := (texts e)(nextText e := \<lparr>text_name = nm, text_Tree = None,
                                           text_common = nextCommon e\<rparr>),
        associated := (associated e)(nextCommon e := Map.empty),
        nextText := Suc (nextText e), nextCommon := Suc (nextCommon e)\<rparr>,
      nextText e)"

text \<open>
  The method \<open>tx.New(name)\<close>: a new, undefined template of that name, associated with \<open>tx\<close>.
\<close>

definition text_Template_New :: "engine \<Rightarrow> textref \<Rightarrow> string \<Rightarrow> engine \<times> textref" where
  "text_Template_New e tx nm =
     (e\<lparr>texts := (texts e)(nextText e := \<lparr>text_name = nm, text_Tree = None,
                                           text_common = text_common (texts e tx)\<rparr>),
        nextText := Suc (nextText e)\<rparr>,
      nextText e)"

text \<open>\<open>tx.Lookup(name)\<close>: the template of that name defined in the association of \<open>tx\<close>.\<close>

definition text_Lookup :: "engine \<Rightarrow> textref \<Rightarrow> string \<Rightarrow> textref option" where
  "text_Lookup e tx nm = associated e (text_common (texts e tx)) nm"

text \<open>\<open>tree.Copy()\<close>: \<open>nil\<close> for \<open>nil\<close>, otherwise a newly allocated tree with the same contents.\<close>

definition Tree_Copy :: "engine \<Rightarrow> treeref option \<Rightarrow> engine \<times> treeref option" where
  "Tree_Copy e tr =
     (case tr of
        None \<Rightarrow> (e, None)
      | Some a \<Rightarrow>
          (e\<lparr>trees := (trees e)(nextTree e := trees e a), nextTree := Suc (nextTree e)\<rparr>,
           Some (nextTree e)))"

subsection \<open>The program state\<close>

text \<open>
  \<open>escapeCalls\<close> records every invocation of the escape transform (target Template and
  name), \<open>executed\<close> every invocation of the engine's \<open>Execute\<close>; both are ghost fields that
  let the claims about "how often" be stated.
\<close>

record state =
  heap :: "tref \<Rightarrow> Template"
  spaces :: "nsref \<Rightarrow> nameSpace"
  nextT :: nat
  nextNs :: nat
  eng :: engine
  escapeCalls :: "(tref \<times> string) list"
  executed :: "textref list"

definition init_engine :: engine where
  "init_engine =
     \<lparr>texts = (\<lambda>_. \<lparr>text_name = [], text_Tree = None, text_common = 0\<rparr>),
      trees = (\<lambda>_. \<lparr>Root = None\<rparr>), associated = (\<lambda>_. Map.empty),
      nextText = 0, nextTree = 0, nextCommon = 0\<rparr>"

definition init_state :: state where
  "init_state =
     \<lparr>heap = (\<lambda>_. \<lparr>escapeErr = None, textT = 0, Tree = None, nameSpace = 0\<rparr>),
      spaces = (\<lambda>_. \<lparr>set_ns = Map.empty, escaped = False\<rparr>),
      nextT = 0, nextNs = 0, eng = init_engine, escapeCalls = [], executed = []\<rparr>"

text \<open>\<open>t.set\<close>: the registry of the name space \<open>t\<close> points to.\<close>

definition registry :: "state \<Rightarrow> tref \<Rightarrow> string \<rightharpoonup> tref" where
  "registry s t = set_ns (spaces s (nameSpace (heap s t)))"

text \<open>\<open>t.set[name] = r\<close>.\<close>

definition set_put :: "state \<Rightarrow> tref \<Rightarrow> string \<Rightarrow> tref \<Rightarrow> state" where
  "set_put s t nm r =
     (let ns = nameSpace (heap s t)
      in s\<lparr>spaces := (spaces s)(ns := (spaces s ns)\<lparr>set_ns := (set_ns (spaces s ns))(nm \<mapsto> r)\<rparr>)\<rparr>)"

text \<open>\<open>&Template{...}\<close>: allocate a Template at the next free address.\<close>

definition alloc :: "state \<Rightarrow> Template \<Rightarrow> tref \<times> state" where
  "alloc s tm = (nextT s, s\<lparr>heap := (heap s)(nextT s := tm), nextT := Suc (nextT s)\<rparr>)"

section \<open>The operations\<close>

definition Name :: "state \<Rightarrow> tref \<Rightarrow> string" where
  "Name s t = text_name (texts (eng s) (textT (heap s t)))"

definition Lookup :: "state \<Rightarrow> tref \<Rightarrow> string \<Rightarrow> tref option" where
  "Lookup s t nm = registry s t nm"

text \<open>The package-level \<open>New\<close>: a new name space holding one new, empty Template.\<close>

definition New :: "state \<Rightarrow> string \<Rightarrow> tref \<times> state" where
  "New s nm =
     (let ns = nextNs s;
          s1 = s\<lparr>spaces := (spaces s)(ns := \<lparr>set_ns = Map.empty, escaped = False\<rparr>),
                 nextNs := Suc ns\<rparr>;
          (e, tx) = text_New (eng s1) nm;
          (tmpl, s2) = alloc (s1\<lparr>eng := e\<rparr>)
                         \<lparr>escapeErr = None, textT = tx, Tree = None, nameSpace = ns\<rparr>
      in (tmpl, set_put s2 tmpl nm tmpl))"

text \<open>
  \<open>t.new(name)\<close>: a new Template in \<open>t\<close>'s name space; a Template already registered under
  the name is overwritten with a copy of a brand-new empty Template (\<open>*existing = *emptyTmpl\<close>,
  all four fields), and the registry entry is then bound to the new Template.
\<close>

definition new :: "state \<Rightarrow> tref \<Rightarrow> string \<Rightarrow> tref \<times> state" where
  "new s t nm =
     (let (e, tx) = text_Template_New (eng s) (textT (heap s t)) nm;
          (tmpl, s1) = alloc (s\<lparr>eng := e\<rparr>)
                         \<lparr>escapeErr = None, textT = tx, Tree = None,
                          nameSpace = nameSpace (heap s t)\<rparr>;
          s2 = (case registry s1 tmpl nm of
                  None \<Rightarrow> s1
                | Some existing \<Rightarrow>
                    (let (emptyTmpl, s') = New s1 (Name s1 existing)
                     in s'\<lparr>heap := (heap s')(existing := heap s' emptyTmpl)\<rparr>))
      in (tmpl, set_put s2 tmpl nm tmpl))"

text \<open>The method \<open>t.New(name)\<close>: \<open>new\<close> under the lock, with no other check.\<close>

definition Template_New :: "state \<Rightarrow> tref \<Rightarrow> string \<Rightarrow> tref \<times> state" where
  "Template_New s t nm = new s t nm"

text \<open>
  \<open>t.checkCanParse()\<close>; the receiver may be \<open>nil\<close> (the package-level \<open>ParseFiles\<close> and
  \<open>ParseGlob\<close> pass \<open>nil\<close>).
\<close>

definition checkCanParse :: "state \<Rightarrow> tref option \<Rightarrow> error option" where
  "checkCanParse s t =
     (case t of
        None \<Rightarrow> None
      | Some r \<Rightarrow>
          if escaped (spaces s (nameSpace (heap s r))) then Some DefinitionAfterExecution
          else None)"

subsection \<open>Escaping before execution\<close>

text \<open>
  Modelled from the spec: \<open>escapeTemplate\<close>, the entry point of the escaper, which the
  source calls but does not contain. Sections 4.3 (step 4) and 6 of the specification:
  the escaper is invoked on the target's tree with the target's name and reports success
  or a failure, and the result is stored on the target as \<open>Success\<close> or \<open>Failed(error)\<close>.
  What the escaper reports is the parameter \<open>outcome\<close> (\<open>None\<close> for success, \<open>Some m\<close> for a
  failure with cause \<open>m\<close>). The rewriting of the tree is outside the specification and is
  not modelled, nor is any outcome the escaper stores on the Templates the target calls
  (section 8). Each invocation is recorded in \<open>escapeCalls\<close>.
\<close>

definition escapeTemplate ::
  "state \<Rightarrow> tref \<Rightarrow> node option \<Rightarrow> string \<Rightarrow> string option \<Rightarrow> error option \<times> state" where
  "escapeTemplate s tmpl root nm outcome =
     (let s1 = s\<lparr>escapeCalls := escapeCalls s @ [(tmpl, nm)]\<rparr>
      in case outcome of
           None \<Rightarrow>
             (None, s1\<lparr>heap := (heap s1)(tmpl := (heap s1 tmpl)\<lparr>escapeErr := Some escapeOK\<rparr>)\<rparr>)
         | Some m \<Rightarrow>
             (Some (EscapeFailed m),
              s1\<lparr>heap := (heap s1)(tmpl := (heap s1 tmpl)\<lparr>escapeErr := Some (EscapeFailed m)\<rparr>)\<rparr>))"

text \<open>\<open>t.nameSpace.escaped = true\<close>.\<close>

definition set_escaped :: "state \<Rightarrow> tref \<Rightarrow> state" where
  "set_escaped s t =
     (let ns = nameSpace (heap s t)
      in s\<lparr>spaces := (spaces s)(ns := (spaces s ns)\<lparr>escaped := True\<rparr>)\<rparr>)"

text \<open>
  \<open>t.escape()\<close>. The argument \<open>t.text.Root\<close> is a field of the tree embedded in the text
  template; reading it through a \<open>nil\<close> tree panics.
\<close>

definition escape :: "state \<Rightarrow> tref \<Rightarrow> string option \<Rightarrow> error option \<times> state" where
  "escape s t outcome =
     (let s1 = set_escaped s t
      in case escapeErr (heap s1 t) of
           None \<Rightarrow>
             (case Tree (heap s1 t) of
                None \<Rightarrow> (Some (IncompleteTemplate (Name s1 t)), s1)
              | Some _ \<Rightarrow>
                  (case text_Tree (texts (eng s1) (textT (heap s1 t))) of
                     None \<Rightarrow> (Some (Panic ''nil pointer dereference''), s1)
                   | Some tr \<Rightarrow>
                       escapeTemplate s1 t (Root (trees (eng s1) tr)) (Name s1 t) outcome))
         | Some e \<Rightarrow> if e \<noteq> escapeOK then (Some e, s1) else (None, s1))"

text \<open>
  \<open>text.Execute(wr, data)\<close> of the engine: what it returns is the parameter \<open>res\<close> (\<open>None\<close>, or
  the message of its error); the call is recorded in \<open>executed\<close>.
\<close>

definition text_Execute :: "state \<Rightarrow> textref \<Rightarrow> string option \<Rightarrow> error option \<times> state" where
  "text_Execute s tx res = (map_option EngineError res, s\<lparr>executed := executed s @ [tx]\<rparr>)"

definition Execute ::
  "state \<Rightarrow> tref \<Rightarrow> string option \<Rightarrow> string option \<Rightarrow> error option \<times> state" where
  "Execute s t outcome res =
     (case escape s t outcome of
        (Some err, s1) \<Rightarrow> (Some err, s1)
      | (None, s1) \<Rightarrow> text_Execute s1 (textT (heap s1 t)) res)"

text \<open>
  \<open>t.lookupAndEscapeTemplate(name)\<close>. It returns a pair \<open>(tmpl, err)\<close>; the last line returns
  the Template together with whatever \<open>escapeTemplate\<close> returned.
\<close>

definition lookupAndEscapeTemplate ::
  "state \<Rightarrow> tref \<Rightarrow> string \<Rightarrow> string option \<Rightarrow> (tref option \<times> error option) \<times> state" where
  "lookupAndEscapeTemplate s t nm outcome =
     (let s1 = set_escaped s t
      in case registry s1 t nm of
           None \<Rightarrow> ((None, Some (UndefinedTemplate nm)), s1)
         | Some tmpl \<Rightarrow>
             if escapeErr (heap s1 tmpl) \<noteq> None \<and> escapeErr (heap s1 tmpl) \<noteq> Some escapeOK
             then ((None, escapeErr (heap s1 tmpl)), s1)
             else
               (case text_Tree (texts (eng s1) (textT (heap s1 tmpl))) of
                  None \<Rightarrow> ((None, Some (IncompleteTemplate nm)), s1)
                | Some tr \<Rightarrow>
                    if Root (trees (eng s1) tr) = None
                    then ((None, Some (IncompleteTemplate nm)), s1)
                    else if text_Lookup (eng s1) (textT (heap s1 t)) nm = None
                    then ((None, Some (Panic ''html/template internal error: template escaping out of sync'')), s1)
                    else if escapeErr (heap s1 tmpl) = None
                    then (let (err, s2) = escapeTemplate s1 tmpl (Root (trees (eng s1) tr)) nm outcome
                          in ((Some tmpl, err), s2))
                    else ((Some tmpl, None), s1)))"

definition ExecuteTemplate ::
  "state \<Rightarrow> tref \<Rightarrow> string \<Rightarrow> string option \<Rightarrow> string option \<Rightarrow> error option \<times> state" where
  "ExecuteTemplate s t nm outcome res =
     (case lookupAndEscapeTemplate s t nm outcome of
        ((_, Some err), s1) \<Rightarrow> (Some err, s1)
      | ((Some tmpl, None), s1) \<Rightarrow> text_Execute s1 (textT (heap s1 tmpl)) res
      | ((None, None), s1) \<Rightarrow> (Some (Panic ''nil pointer dereference''), s1))"

subsection \<open>Definition operations\<close>

text \<open>
  An answer of the engine to a call that may change the engine: the engine after the call,
  and either an error message or the value returned.
\<close>

type_synonym 'a engine_answer = "engine \<times> (string + 'a)"

text \<open>
  One round of the loop of \<open>Parse\<close> over \<open>ret.Templates()\<close>, for the text template \<open>v\<close>.
\<close>

definition Parse_body :: "state \<Rightarrow> tref \<Rightarrow> textref \<Rightarrow> state" where
  "Parse_body s t v =
     (let nm = text_name (texts (eng s) v);
          (tmpl, s1) = (case registry s t nm of
                          None \<Rightarrow> new s t nm
                        | Some r \<Rightarrow> (r, s))
      in s1\<lparr>heap := (heap s1)(tmpl := (heap s1 tmpl)\<lparr>textT := v,
                                                     Tree := text_Tree (texts (eng s1) v)\<rparr>)\<rparr>)"

primrec Parse_loop :: "state \<Rightarrow> tref \<Rightarrow> textref list \<Rightarrow> state" where
  "Parse_loop s t [] = s"
| "Parse_loop s t (v # vs) = Parse_loop (Parse_body s t v) t vs"

text \<open>
  \<open>t.Parse(text)\<close>. The engine's answer to \<open>t.text.Parse(text)\<close> followed by
  \<open>ret.Templates()\<close> is the parameter \<open>ans\<close>: the text templates now associated, in the
  order the loop visits them.
\<close>

definition Parse ::
  "state \<Rightarrow> tref \<Rightarrow> string \<Rightarrow> textref list engine_answer \<Rightarrow> (error + tref) \<times> state" where
  "Parse s t txt ans =
     (case checkCanParse s (Some t) of
        Some err \<Rightarrow> (Inl err, s)
      | None \<Rightarrow>
          (case ans of
             (e, Inl m) \<Rightarrow> (Inl (EngineError m), s\<lparr>eng := e\<rparr>)
           | (e, Inr vs) \<Rightarrow> (Inr t, Parse_loop (s\<lparr>eng := e\<rparr>) t vs)))"

text \<open>
  \<open>t.AddParseTree(name, tree)\<close>; \<open>ans\<close> is the engine's answer to
  \<open>t.text.AddParseTree(name, tree)\<close>.
\<close>

definition AddParseTree ::
  "state \<Rightarrow> tref \<Rightarrow> string \<Rightarrow> treeref option \<Rightarrow> textref engine_answer
     \<Rightarrow> (error + tref) \<times> state" where
  "AddParseTree s t nm tree ans =
     (case checkCanParse s (Some t) of
        Some err \<Rightarrow> (Inl err, s)
      | None \<Rightarrow>
          (case ans of
             (e, Inl m) \<Rightarrow> (Inl (EngineError m), s\<lparr>eng := e\<rparr>)
           | (e, Inr tx) \<Rightarrow>
               (let (ret, s1) = alloc (s\<lparr>eng := e\<rparr>)
                                  \<lparr>escapeErr = None, textT = tx,
                                   Tree = text_Tree (texts e tx),
                                   nameSpace = nameSpace (heap s t)\<rparr>
                in (Inr ret, set_put s1 t nm ret))))"

subsection \<open>Clone\<close>

text \<open>
  One round of the loop of \<open>Clone\<close> over \<open>textClone.Templates()\<close>, for the text template \<open>x\<close>:
  the error return, or the copy of the tree, the write to \<open>x.Tree\<close> and the new Template.
\<close>

definition Clone_body :: "state \<Rightarrow> tref \<Rightarrow> tref \<Rightarrow> textref \<Rightarrow> error option \<times> state" where
  "Clone_body s t ret x =
     (let nm = text_name (texts (eng s) x)
      in case registry s t nm of
           None \<Rightarrow> (Some (CloneAfterExecution (Name s t)), s)
         | Some src \<Rightarrow>
             if escapeErr (heap s src) \<noteq> None
             then (Some (CloneAfterExecution (Name s t)), s)
             else
               (let (e1, cp) = Tree_Copy (eng s) (text_Tree (texts (eng s) x));
                    e2 = e1\<lparr>texts := (texts e1)(x := (texts e1 x)\<lparr>text_Tree := cp\<rparr>)\<rparr>;
                    (r, s1) = alloc (s\<lparr>eng := e2\<rparr>)
                                \<lparr>escapeErr = None, textT = x, Tree = cp,
                                 nameSpace = nameSpace (heap s ret)\<rparr>
                in (None, set_put s1 ret nm r)))"

fun Clone_loop :: "state \<Rightarrow> tref \<Rightarrow> tref \<Rightarrow> textref list \<Rightarrow> error option \<times> state" where
  "Clone_loop s t ret [] = (None, s)"
| "Clone_loop s t ret (x # xs) =
     (case Clone_body s t ret x of
        (Some err, s1) \<Rightarrow> (Some err, s1)
      | (None, s1) \<Rightarrow> Clone_loop s1 t ret xs)"

text \<open>The condition under which a round of the loop of \<open>Clone\<close> does not return the error.\<close>

definition Clone_body_ok :: "state \<Rightarrow> tref \<Rightarrow> textref \<Rightarrow> bool" where
  "Clone_body_ok s t x =
     (case registry s t (text_name (texts (eng s) x)) of
        None \<Rightarrow> False
      | Some src \<Rightarrow> escapeErr (heap s src) = None)"

text \<open>
  The lines of \<open>Clone\<close> between the engine's clone and the loop: the new name space, the
  Template \<open>ret\<close> around \<open>textClone\<close>, and \<open>ret.set[ret.Name()] = ret\<close>.
\<close>

definition Clone_start :: "state \<Rightarrow> textref \<Rightarrow> tref \<times> state" where
  "Clone_start s textClone =
     (let ns = nextNs s;
          s1 = s\<lparr>spaces := (spaces s)(ns := \<lparr>set_ns = Map.empty, escaped = False\<rparr>),
                 nextNs := Suc ns\<rparr>;
          (ret, s2) = alloc s1 \<lparr>escapeErr = None, textT = textClone,
                                Tree = text_Tree (texts (eng s1) textClone), nameSpace = ns\<rparr>
      in (ret, set_put s2 ret (Name s2 ret) ret))"

text \<open>
  \<open>t.Clone()\<close>; \<open>ans\<close> is the engine's answer to \<open>t.text.Clone()\<close> followed by
  \<open>textClone.Templates()\<close>. The result is a pointer read from the new registry, \<open>nil\<close> if
  the name is not there.
\<close>

definition Clone ::
  "state \<Rightarrow> tref \<Rightarrow> (textref \<times> textref list) engine_answer
     \<Rightarrow> (error + tref option) \<times> state" where
  "Clone s t ans =
     (if escapeErr (heap s t) \<noteq> None then (Inl (CloneAfterExecution (Name s t)), s)
      else
        (case ans of
           (e, Inl m) \<Rightarrow> (Inl (EngineError m), s\<lparr>eng := e\<rparr>)
         | (e, Inr (textClone, xs)) \<Rightarrow>
             (let (ret, s1) = Clone_start (s\<lparr>eng := e\<rparr>) textClone
              in case Clone_loop s1 t ret xs of
                   (Some err, s2) \<Rightarrow> (Inl err, s2)
                 | (None, s2) \<Rightarrow> (Inr (registry s2 ret (Name s2 ret)), s2))))"

subsection \<open>Files\<close>

text \<open>
  What the outside world answers for one file name: \<open>filepath.Base(filename)\<close>, the result
  of \<open>ioutil.ReadFile(filename)\<close>, and the engine's answer to the \<open>Parse\<close> of its contents.
\<close>

record file_input =
  base :: string
  contents :: "string + string"
  parsed :: "textref list engine_answer"

fun parseFiles_loop ::
  "state \<Rightarrow> tref option \<Rightarrow> file_input list \<Rightarrow> (error + tref option) \<times> state" where
  "parseFiles_loop s t [] = (Inr t, s)"
| "parseFiles_loop s t (f # fs) =
     (case contents f of
        Inl m \<Rightarrow> (Inl (EngineError m), s)
      | Inr txt \<Rightarrow>
          (let (t1, s1) = (case t of None \<Rightarrow> New s (base f) | Some r \<Rightarrow> (r, s));
               (tmpl, s2) = (if base f = Name s1 t1 then (t1, s1)
                             else Template_New s1 t1 (base f))
           in case Parse s2 tmpl txt (parsed f) of
                (Inl err, s3) \<Rightarrow> (Inl err, s3)
              | (Inr _, s3) \<Rightarrow> parseFiles_loop s3 (Some t1) fs))"

definition parseFiles ::
  "state \<Rightarrow> tref option \<Rightarrow> file_input list \<Rightarrow> (error + tref option) \<times> state" where
  "parseFiles s t files =
     (case checkCanParse s t of
        Some err \<Rightarrow> (Inl err, s)
      | None \<Rightarrow> if files = [] then (Inl NoFilesNamed, s) else parseFiles_loop s t files)"

text \<open>\<open>glob\<close> is the answer of \<open>filepath.Glob(pattern)\<close>.\<close>

definition parseGlob ::
  "state \<Rightarrow> tref option \<Rightarrow> string \<Rightarrow> string + file_input list
     \<Rightarrow> (error + tref option) \<times> state" where
  "parseGlob s t pattern glob =
     (case checkCanParse s t of
        Some err \<Rightarrow> (Inl err, s)
      | None \<Rightarrow>
          (case glob of
             Inl m \<Rightarrow> (Inl (EngineError m), s)
           | Inr files \<Rightarrow>
               if files = [] then (Inl (PatternMatchesNoFiles pattern), s)
               else parseFiles s t files))"

definition ParseFiles :: "state \<Rightarrow> file_input list \<Rightarrow> (error + tref option) \<times> state" where
  "ParseFiles s files = parseFiles s None files"

definition Template_ParseFiles ::
  "state \<Rightarrow> tref \<Rightarrow> file_input list \<Rightarrow> (error + tref option) \<times> state" where
  "Template_ParseFiles s t files = parseFiles s (Some t) files"

definition ParseGlob ::
  "state \<Rightarrow> string \<Rightarrow> string + file_input list \<Rightarrow> (error + tref option) \<times> state" where
  "ParseGlob s pattern glob = parseGlob s None pattern glob"

definition Template_ParseGlob ::
  "state \<Rightarrow> tref \<Rightarrow> string \<Rightarrow> string + file_input list \<Rightarrow> (error + tref option) \<times> state" where
  "Template_ParseGlob s t pattern glob = parseGlob s (Some t) pattern glob"

section \<open>Sequences of public operations\<close>

text \<open>
  A call of the public interface, with the answers of the outside world it consumes.
  A method call goes through a handle, which is the address of an allocated Template.
\<close>

datatype op =
    Op_New string
  | Op_Template_New tref string
  | Op_Parse tref string "textref list engine_answer"
  | Op_AddParseTree tref string "treeref option" "textref engine_answer"
  | Op_Clone tref "(textref \<times> textref list) engine_answer"
  | Op_Execute tref "string option" "string option"
  | Op_ExecuteTemplate tref string "string option" "string option"
  | Op_ParseFiles "tref option" "file_input list"
  | Op_ParseGlob "tref option" string "string + file_input list"

definition is_handle :: "state \<Rightarrow> tref \<Rightarrow> bool" where
  "is_handle s t = (t < nextT s)"

definition is_handle_opt :: "state \<Rightarrow> tref option \<Rightarrow> bool" where
  "is_handle_opt s t = (case t of None \<Rightarrow> True | Some r \<Rightarrow> is_handle s r)"

text \<open>The receiver of a call; the package-level functions have none.\<close>

fun receiver :: "op \<Rightarrow> tref option" where
  "receiver (Op_New nm) = None"
| "receiver (Op_Template_New t nm) = Some t"
| "receiver (Op_Parse t txt ans) = Some t"
| "receiver (Op_AddParseTree t nm tree ans) = Some t"
| "receiver (Op_Clone t ans) = Some t"
| "receiver (Op_Execute t outcome res) = Some t"
| "receiver (Op_ExecuteTemplate t nm outcome res) = Some t"
| "receiver (Op_ParseFiles t files) = t"
| "receiver (Op_ParseGlob t pattern glob) = t"

fun perform :: "state \<Rightarrow> op \<Rightarrow> state" where
  "perform s (Op_New nm) = snd (New s nm)"
| "perform s (Op_Template_New t nm) = snd (Template_New s t nm)"
| "perform s (Op_Parse t txt ans) = snd (Parse s t txt ans)"
| "perform s (Op_AddParseTree t nm tree ans) = snd (AddParseTree s t nm tree ans)"
| "perform s (Op_Clone t ans) = snd (Clone s t ans)"
| "perform s (Op_Execute t outcome res) = snd (Execute s t outcome res)"
| "perform s (Op_ExecuteTemplate t nm outcome res) = snd (ExecuteTemplate s t nm outcome res)"
| "perform s (Op_ParseFiles t files) = snd (parseFiles s t files)"
| "perform s (Op_ParseGlob t pattern glob) = snd (parseGlob s t pattern glob)"

text \<open>A call through an address that is no handle is not a call of the program.\<close>

definition step :: "state \<Rightarrow> op \<Rightarrow> state" where
  "step s c = (if is_handle_opt s (receiver c) then perform s c else s)"

text \<open>The state after a sequence of calls, from the empty store.\<close>

definition run :: "op list \<Rightarrow> state" where
  "run cs = foldl step init_state cs"

subsection \<open>Invariants of the store\<close>

text \<open>
  Every registry entry is an allocated Template that points back to the name space it is
  registered in and is registered under one name only, and every allocated Template points
  to an allocated name space.
\<close>

definition store_ok :: "state \<Rightarrow> bool" where
  "store_ok s \<longleftrightarrow>
     (\<forall>ns k r. set_ns (spaces s ns) k = Some r \<longrightarrow> r < nextT s \<and> nameSpace (heap s r) = ns) \<and>
     (\<forall>ns k1 k2 r. set_ns (spaces s ns) k1 = Some r \<longrightarrow> set_ns (spaces s ns) k2 = Some r
        \<longrightarrow> k1 = k2) \<and>
     (\<forall>r. r < nextT s \<longrightarrow> nameSpace (heap s r) < nextNs s)"

definition registered :: "state \<Rightarrow> tref \<Rightarrow> bool" where
  "registered s r \<longleftrightarrow> (\<exists>ns k. set_ns (spaces s ns) k = Some r)"

text \<open>
  The targets of the recorded escape invocations are allocated and pairwise different, and
  a target whose outcome is unresolved again has no tree and is in no registry.
\<close>

definition escaped_once :: "state \<Rightarrow> bool" where
  "escaped_once s \<longleftrightarrow>
     distinct (map fst (escapeCalls s)) \<and>
     (\<forall>r nm. (r, nm) \<in> set (escapeCalls s) \<longrightarrow>
        r < nextT s \<and>
        (escapeErr (heap s r) = None \<longrightarrow> Tree (heap s r) = None \<and> \<not> registered s r))"

text \<open>
  What holds of the registry of the name space of \<open>ret\<close> all along the loop of \<open>Clone\<close>:
  every entry is a Template of the name under which it is registered, not older than
  \<open>ret\<close>, with no escape outcome, of that name space, and, \<open>ret\<close> apart, its tree is \<open>nil\<close>
  or was allocated at or after the address \<open>T0\<close>.
\<close>

definition clone_ok :: "state \<Rightarrow> tref \<Rightarrow> nat \<Rightarrow> bool" where
  "clone_ok s ret T0 \<longleftrightarrow>
     (\<forall>k q. set_ns (spaces s (nameSpace (heap s ret))) k = Some q \<longrightarrow>
        Name s q = k \<and> ret \<le> q \<and> q < nextT s \<and> escapeErr (heap s q) = None \<and>
        nameSpace (heap s q) = nameSpace (heap s ret) \<and>
        (q \<noteq> ret \<longrightarrow>
           (case Tree (heap s q) of
              None \<Rightarrow> True
            | Some tr \<Rightarrow> T0 \<le> tr \<and> tr < nextTree (eng s))))"

text \<open>
  What holds of the copies all along the loop of \<open>Clone\<close>, \<open>e0\<close> being the engine's state when
  the loop starts and \<open>X\<close> the text templates the engine lists: every entry of the registry
  of the name space of \<open>ret\<close>, \<open>ret\<close> apart, holds a listed text template and the very tree
  that text template holds; and every listed text template that had a tree in \<open>e0\<close> holds an
  allocated tree with the contents that tree had in \<open>e0\<close>, and one that had none holds none.
\<close>

definition copies_ok :: "state \<Rightarrow> tref \<Rightarrow> engine \<Rightarrow> textref set \<Rightarrow> bool" where
  "copies_ok s ret e0 X \<longleftrightarrow>
     (\<forall>k q. set_ns (spaces s (nameSpace (heap s ret))) k = Some q \<longrightarrow> q \<noteq> ret \<longrightarrow>
        textT (heap s q) \<in> X \<and>
        text_Tree (texts (eng s) (textT (heap s q))) = Tree (heap s q)) \<and>
     (\<forall>x\<in>X. case text_Tree (texts e0 x) of
                None \<Rightarrow> text_Tree (texts (eng s) x) = None
              | Some a \<Rightarrow>
                  (\<exists>tr. text_Tree (texts (eng s) x) = Some tr \<and> tr < nextTree (eng s) \<and>
                        trees (eng s) tr = trees e0 a))"

subsection \<open>What the package relies on from the engine\<close>

text \<open>
  The engine's state is in order when every allocated text template belongs to an
  allocated association and, if it has a tree, its name is defined in its association.
\<close>

definition engine_ok :: "engine \<Rightarrow> bool" where
  "engine_ok e \<longleftrightarrow>
     (\<forall>tx. tx < nextText e \<longrightarrow>
        text_common (texts e tx) < nextCommon e \<and>
        (text_Tree (texts e tx) \<noteq> None \<longrightarrow>
           associated e (text_common (texts e tx)) (text_name (texts e tx)) \<noteq> None))"

text \<open>
  From one state of the engine to a later one: nothing is deallocated, no text template
  changes its name or its association, and no name defined in an association becomes
  undefined.
\<close>

definition engine_extends :: "engine \<Rightarrow> engine \<Rightarrow> bool" where
  "engine_extends e e' \<longleftrightarrow>
     nextText e \<le> nextText e' \<and> nextCommon e \<le> nextCommon e' \<and>
     (\<forall>tx. tx < nextText e \<longrightarrow>
        text_name (texts e' tx) = text_name (texts e tx) \<and>
        text_common (texts e' tx) = text_common (texts e tx)) \<and>
     (\<forall>c k. c < nextCommon e \<longrightarrow> associated e c k \<noteq> None \<longrightarrow> associated e' c k \<noteq> None)"

text \<open>
  What is asked of the engine's answers. \<open>tx.Parse\<close>: the templates it lists are allocated
  and associated with \<open>tx\<close>. \<open>tx.AddParseTree(name, tree)\<close>: the template it returns is
  allocated, associated with \<open>tx\<close> and has the name. \<open>tx.Clone()\<close>: the clone is allocated, and
  the templates it lists are allocated and associated with the clone.
\<close>

definition Parse_answer_ok :: "engine \<Rightarrow> textref \<Rightarrow> textref list engine_answer \<Rightarrow> bool" where
  "Parse_answer_ok e tx ans =
     (case ans of (e', res) \<Rightarrow>
        engine_ok e' \<and> engine_extends e e' \<and>
        (case res of
           Inl m \<Rightarrow> True
         | Inr vs \<Rightarrow>
             (\<forall>v\<in>set vs. v < nextText e' \<and>
                 text_common (texts e' v) = text_common (texts e tx))))"

definition AddParseTree_answer_ok ::
  "engine \<Rightarrow> textref \<Rightarrow> string \<Rightarrow> textref engine_answer \<Rightarrow> bool" where
  "AddParseTree_answer_ok e tx nm ans =
     (case ans of (e', res) \<Rightarrow>
        engine_ok e' \<and> engine_extends e e' \<and>
        (case res of
           Inl m \<Rightarrow> True
         | Inr tx' \<Rightarrow>
             tx' < nextText e' \<and> text_common (texts e' tx') = text_common (texts e tx) \<and>
             text_name (texts e' tx') = nm))"

definition Clone_answer_ok :: "engine \<Rightarrow> (textref \<times> textref list) engine_answer \<Rightarrow> bool" where
  "Clone_answer_ok e ans =
     (case ans of (e', res) \<Rightarrow>
        engine_ok e' \<and> engine_extends e e' \<and>
        (case res of
           Inl m \<Rightarrow> True
         | Inr (tc, xs) \<Rightarrow>
             tc < nextText e' \<and>
             (\<forall>x\<in>set xs. x < nextText e' \<and>
                 text_common (texts e' x) = text_common (texts e' tc))))"

text \<open>The same for the files of \<open>parseFiles\<close>, each answer at the store its \<open>Parse\<close> starts from.\<close>

fun files_ok :: "state \<Rightarrow> tref option \<Rightarrow> file_input list \<Rightarrow> bool" where
  "files_ok s t [] = True"
| "files_ok s t (f # fs) =
     (case contents f of
        Inl m \<Rightarrow> True
      | Inr body \<Rightarrow>
          (let (t1, s1) = (case t of None \<Rightarrow> New s (base f) | Some r \<Rightarrow> (r, s));
               (tmpl, s2) = (if base f = Name s1 t1 then (t1, s1)
                             else Template_New s1 t1 (base f))
           in Parse_answer_ok (eng s2) (textT (heap s2 tmpl)) (parsed f) \<and>
              (case Parse s2 tmpl body (parsed f) of
                 (Inl err, s3) \<Rightarrow> True
               | (Inr r, s3) \<Rightarrow> files_ok s3 (Some t1) fs)))"

fun answers_ok :: "state \<Rightarrow> op \<Rightarrow> bool" where
  "answers_ok s (Op_New nm) = True"
| "answers_ok s (Op_Template_New t nm) = True"
| "answers_ok s (Op_Parse t body ans) = Parse_answer_ok (eng s) (textT (heap s t)) ans"
| "answers_ok s (Op_AddParseTree t nm tree ans) =
     AddParseTree_answer_ok (eng s) (textT (heap s t)) nm ans"
| "answers_ok s (Op_Clone t ans) = Clone_answer_ok (eng s) ans"
| "answers_ok s (Op_Execute t outcome res) = True"
| "answers_ok s (Op_ExecuteTemplate t nm outcome res) = True"
| "answers_ok s (Op_ParseFiles t files) = files_ok s t files"
| "answers_ok s (Op_ParseGlob t pattern glob) =
     (case glob of Inl m \<Rightarrow> True | Inr files \<Rightarrow> files_ok s t files)"

text \<open>A sequence of calls, from the store \<open>s\<close>, in which every answer of the engine is as asked.\<close>

fun contract :: "state \<Rightarrow> op list \<Rightarrow> bool" where
  "contract s [] = True"
| "contract s (c # cs) = (answers_ok s c \<and> contract (step s c) cs)"

text \<open>
  The registry and the engine in step: the engine's state is in order; the text of every
  allocated Template is allocated; the texts of the Templates of one name space are
  associated with each other; every registry entry is a Template whose text has the name
  of the entry; no Template holds a panic as its escape error; and a registry entry that
  holds an escape outcome is defined in the engine under the name of the entry.
\<close>

definition sync_ok :: "state \<Rightarrow> bool" where
  "sync_ok s \<longleftrightarrow>
     engine_ok (eng s) \<and>
     (\<forall>r. r < nextT s \<longrightarrow> textT (heap s r) < nextText (eng s)) \<and>
     (\<forall>r q. r < nextT s \<longrightarrow> q < nextT s \<longrightarrow> nameSpace (heap s r) = nameSpace (heap s q) \<longrightarrow>
        text_common (texts (eng s) (textT (heap s r)))
          = text_common (texts (eng s) (textT (heap s q)))) \<and>
     (\<forall>ns k r. set_ns (spaces s ns) k = Some r \<longrightarrow> Name s r = k) \<and>
     (\<forall>r m. r < nextT s \<longrightarrow> escapeErr (heap s r) \<noteq> Some (Panic m)) \<and>
     (\<forall>ns k r. set_ns (spaces s ns) k = Some r \<longrightarrow> escapeErr (heap s r) \<noteq> None \<longrightarrow>
        text_Lookup (eng s) (textT (heap s r)) k \<noteq> None)"

section \<open>Example stores\<close>

text \<open>
  \<open>ex_a\<close>: after \<open>New("a")\<close>; the Template has address 0 and name space 0.
  \<open>ex_frozen\<close>: the same after an \<open>Execute\<close> through it, which fails (no tree) and leaves the
  name space frozen.
\<close>

definition ex_a :: state where
  "ex_a = run [Op_New ''a'']"

definition ex_frozen :: state where
  "ex_frozen = run [Op_New ''a'', Op_Execute 0 None None]"

text \<open>
  \<open>ex_parsed\<close>: after \<open>New("a")\<close> and a \<open>Parse\<close> that gave "a" a body; the engine's answer
  \<open>ex_engine_a\<close> holds the text template 0, named "a", with the tree 0.
  \<open>ex_failed\<close>: the same after an \<open>Execute\<close> on which the escaper reported the failure "bad".
\<close>

definition ex_engine_a :: engine where
  "ex_engine_a =
     \<lparr>texts = (\<lambda>_. \<lparr>text_name = [], text_Tree = None, text_common = 0\<rparr>)
                 (0 := \<lparr>text_name = ''a'', text_Tree = Some 0, text_common = 0\<rparr>),
      trees = (\<lambda>_. \<lparr>Root = None\<rparr>)(0 := \<lparr>Root = Some ''x''\<rparr>),
      associated = (\<lambda>_. Map.empty)(0 := [''a'' \<mapsto> 0]),
      nextText = 1, nextTree = 1, nextCommon = 1\<rparr>"

definition ex_parsed :: state where
  "ex_parsed = run [Op_New ''a'', Op_Parse 0 ''x'' (ex_engine_a, Inr [0])]"

definition ex_failed :: state where
  "ex_failed = run [Op_New ''a'', Op_Parse 0 ''x'' (ex_engine_a, Inr [0]),
                    Op_Execute 0 (Some ''bad'') None]"

text \<open>
  \<open>ex_b\<close>: after \<open>New("a")\<close> and \<open>AddParseTree("b", tree 0)\<close> through it; the engine's answer
  \<open>ex_engine_b\<close> holds the new text template 1, named "b", with the tree 0. The Template of
  "b" has address 1. \<open>ex_engine_b2\<close> is the engine's answer to a second
  \<open>AddParseTree("b", tree 1)\<close>: another text template, 2, with the tree 1.
\<close>

definition ex_engine_b :: engine where
  "ex_engine_b =
     \<lparr>texts = (\<lambda>_. \<lparr>text_name = [], text_Tree = None, text_common = 0\<rparr>)
                 (0 := \<lparr>text_name = ''a'', text_Tree = None, text_common = 0\<rparr>,
                  1 := \<lparr>text_name = ''b'', text_Tree = Some 0, text_common = 0\<rparr>),
      trees = (\<lambda>_. \<lparr>Root = None\<rparr>)(0 := \<lparr>Root = Some ''x''\<rparr>),
      associated = (\<lambda>_. Map.empty)(0 := [''b'' \<mapsto> 1]),
      nextText = 2, nextTree = 1, nextCommon = 1\<rparr>"

definition ex_engine_b2 :: engine where
  "ex_engine_b2 =
     \<lparr>texts = (\<lambda>_. \<lparr>text_name = [], text_Tree = None, text_common = 0\<rparr>)
                 (0 := \<lparr>text_name = ''a'', text_Tree = None, text_common = 0\<rparr>,
                  1 := \<lparr>text_name = ''b'', text_Tree = Some 0, text_common = 0\<rparr>,
                  2 := \<lparr>text_name = ''b'', text_Tree = Some 1, text_common = 0\<rparr>),
      trees = (\<lambda>_. \<lparr>Root = None\<rparr>)(0 := \<lparr>Root = Some ''x''\<rparr>, 1 := \<lparr>Root = Some ''y''\<rparr>),
      associated = (\<lambda>_. Map.empty)(0 := [''b'' \<mapsto> 2]),
      nextText = 3, nextTree = 2, nextCommon = 1\<rparr>"

definition ex_b :: state where
  "ex_b = run [Op_New ''a'', Op_AddParseTree 0 ''b'' (Some 0) (ex_engine_b, Inr 1)]"

text \<open>
  \<open>ex_b_done\<close>: \<open>ex_b\<close> after an \<open>ExecuteTemplate\<close> of "b" on which the escaper succeeded.
  \<open>ex_engine_clone\<close> is the engine's answer to a clone through the Template 0 of \<open>ex_b\<close>: the
  clone 2 of the text template "a" and the clone 3 of "b", which shares the tree 0, in a
  new association; the engine lists the defined template 3.
\<close>

definition ex_b_done :: state where
  "ex_b_done = run [Op_New ''a'', Op_AddParseTree 0 ''b'' (Some 0) (ex_engine_b, Inr 1),
                    Op_ExecuteTemplate 0 ''b'' None None]"

definition ex_engine_clone :: engine where
  "ex_engine_clone =
     \<lparr>texts = (\<lambda>_. \<lparr>text_name = [], text_Tree = None, text_common = 0\<rparr>)
                 (0 := \<lparr>text_name = ''a'', text_Tree = None, text_common = 0\<rparr>,
                  1 := \<lparr>text_name = ''b'', text_Tree = Some 0, text_common = 0\<rparr>,
                  2 := \<lparr>text_name = ''a'', text_Tree = None, text_common = 1\<rparr>,
                  3 := \<lparr>text_name = ''b'', text_Tree = Some 0, text_common = 1\<rparr>),
      trees = (\<lambda>_. \<lparr>Root = None\<rparr>)(0 := \<lparr>Root = Some ''x''\<rparr>),
      associated = (\<lambda>_. Map.empty)(0 := [''b'' \<mapsto> 1], 1 := [''b'' \<mapsto> 3]),
      nextText = 4, nextTree = 1, nextCommon = 2\<rparr>"

text \<open>
  \<open>ex_engine_unassociated\<close>: an answer to \<open>Parse\<close> that \<open>text/template\<close> does not give: the
  text template 0, named "a", has the tree 0, but no name is defined in its association.
\<close>

definition ex_engine_unassociated :: engine where
  "ex_engine_unassociated =
     \<lparr>texts = (\<lambda>_. \<lparr>text_name = [], text_Tree = None, text_common = 0\<rparr>)
                 (0 := \<lparr>text_name = ''a'', text_Tree = Some 0, text_common = 0\<rparr>),
      trees = (\<lambda>_. \<lparr>Root = None\<rparr>)(0 := \<lparr>Root = Some ''x''\<rparr>),
      associated = (\<lambda>_. Map.empty),
      nextText = 1, nextTree = 1, nextCommon = 1\<rparr>"

text \<open>
  \<open>ex_unsafe\<close>: a Template that holds a failure and has no tree. After \<open>New("a")\<close> the engine
  gives the text template 0 a body while it answers a clone with an error (\<open>ex_engine_a\<close>);
  \<open>ExecuteTemplate\<close> of "a" then stores the escaper's failure "bad" on the Template 0, whose
  own \<open>Tree\<close> is still \<open>nil\<close>; \<open>New("b")\<close> through it gives the Template 1, and while the engine
  answers a clone through that one with an error it takes the tree of the text template 0
  away (\<open>ex_engine_bare\<close>).
  \<open>ex_escaped_bare\<close>: the first two calls, then an \<open>ExecuteTemplate\<close> of "a" on which the
  escaper succeeded: the Template 0 holds a success and its own \<open>Tree\<close> is \<open>nil\<close>.
\<close>

definition ex_engine_bare :: engine where
  "ex_engine_bare =
     \<lparr>texts = (\<lambda>_. \<lparr>text_name = [], text_Tree = None, text_common = 0\<rparr>)
                 (0 := \<lparr>text_name = ''a'', text_Tree = None, text_common = 0\<rparr>,
                  1 := \<lparr>text_name = ''b'', text_Tree = None, text_common = 0\<rparr>),
      trees = (\<lambda>_. \<lparr>Root = None\<rparr>)(0 := \<lparr>Root = Some ''x''\<rparr>),
      associated = (\<lambda>_. Map.empty)(0 := [''a'' \<mapsto> 0]),
      nextText = 2, nextTree = 1, nextCommon = 1\<rparr>"

definition ex_unsafe :: state where
  "ex_unsafe = run [Op_New ''a'', Op_Clone 0 (ex_engine_a, Inl ''failed''),
                    Op_ExecuteTemplate 0 ''a'' (Some ''bad'') None, Op_Template_New 0 ''b'',
                    Op_Clone 1 (ex_engine_bare, Inl ''failed'')]"

definition ex_escaped_bare :: state where
  "ex_escaped_bare = run [Op_New ''a'', Op_Clone 0 (ex_engine_a, Inl ''failed''),
                          Op_ExecuteTemplate 0 ''a'' None None]"

section \<open>Effects of the primitive steps on the store\<close>

lemma New_fields:
  "fst (New s nm) = nextT s"
  "heap (snd (New s nm)) =
     (heap s)(nextT s := \<lparr>escapeErr = None, textT = nextText (eng s), Tree = None,
                           nameSpace = nextNs s\<rparr>)"
  "spaces (snd (New s nm)) =
     (spaces s)(nextNs s := \<lparr>set_ns = [nm \<mapsto> nextT s], escaped = False\<rparr>)"
  "nextT (snd (New s nm)) = Suc (nextT s)"
  "nextNs (snd (New s nm)) = Suc (nextNs s)"
  "escapeCalls (snd (New s nm)) = escapeCalls s"
  "executed (snd (New s nm)) = executed s"
  "eng (snd (New s nm)) = fst (text_New (eng s) nm)"
  by (simp_all add: New_def alloc_def set_put_def text_New_def text_Template_New_def Let_def)

lemma new_fields_absent:
  assumes "registry s t nm = None"
  shows "fst (new s t nm) = nextT s"
    "heap (snd (new s t nm)) =
       (heap s)(nextT s := \<lparr>escapeErr = None, textT = nextText (eng s), Tree = None,
                             nameSpace = nameSpace (heap s t)\<rparr>)"
    "spaces (snd (new s t nm)) =
       (spaces s)(nameSpace (heap s t) := (spaces s (nameSpace (heap s t)))
          \<lparr>set_ns := (set_ns (spaces s (nameSpace (heap s t))))(nm \<mapsto> nextT s)\<rparr>)"
    "nextT (snd (new s t nm)) = Suc (nextT s)"
    "nextNs (snd (new s t nm)) = nextNs s"
    "escapeCalls (snd (new s t nm)) = escapeCalls s"
    "executed (snd (new s t nm)) = executed s"
    "eng (snd (new s t nm)) = fst (text_Template_New (eng s) (textT (heap s t)) nm)"
  using assms
  by (simp_all add: new_def alloc_def set_put_def text_New_def text_Template_New_def registry_def Let_def)

lemma new_fields_present:
  assumes "registry s t nm = Some ex" "ex \<noteq> nextT s" "nameSpace (heap s t) \<noteq> nextNs s"
  shows "fst (new s t nm) = nextT s"
    "heap (snd (new s t nm)) =
       (heap s)(nextT s := \<lparr>escapeErr = None, textT = nextText (eng s), Tree = None,
                             nameSpace = nameSpace (heap s t)\<rparr>,
                Suc (nextT s) := \<lparr>escapeErr = None, textT = Suc (nextText (eng s)),
                                   Tree = None, nameSpace = nextNs s\<rparr>,
                ex := \<lparr>escapeErr = None, textT = Suc (nextText (eng s)), Tree = None,
                        nameSpace = nextNs s\<rparr>)"
    "spaces (snd (new s t nm)) =
       (spaces s)(nextNs s :=
            \<lparr>set_ns = [text_name (texts (fst (text_Template_New (eng s) (textT (heap s t)) nm)) (textT (heap s ex)))
                         \<mapsto> Suc (nextT s)],
             escaped = False\<rparr>,
          nameSpace (heap s t) := (spaces s (nameSpace (heap s t)))
            \<lparr>set_ns := (set_ns (spaces s (nameSpace (heap s t))))(nm \<mapsto> nextT s)\<rparr>)"
    "nextT (snd (new s t nm)) = Suc (Suc (nextT s))"
    "nextNs (snd (new s t nm)) = Suc (nextNs s)"
    "escapeCalls (snd (new s t nm)) = escapeCalls s"
    "executed (snd (new s t nm)) = executed s"
  using assms
  by (simp_all add: new_def alloc_def set_put_def text_New_def text_Template_New_def registry_def Name_def New_def
      Let_def)

lemma set_escaped_fields [simp]:
  "heap (set_escaped s t) = heap s"
  "set_ns (spaces (set_escaped s t) ns) = set_ns (spaces s ns)"
  "nextT (set_escaped s t) = nextT s"
  "nextNs (set_escaped s t) = nextNs s"
  "escapeCalls (set_escaped s t) = escapeCalls s"
  "executed (set_escaped s t) = executed s"
  "eng (set_escaped s t) = eng s"
  "escaped (spaces (set_escaped s t) ns) = (ns = nameSpace (heap s t) \<or> escaped (spaces s ns))"
  by (simp_all add: set_escaped_def Let_def)

lemma registry_set_escaped [simp]: "registry (set_escaped s t) r = registry s r"
  by (simp add: registry_def)

lemma Name_set_escaped [simp]: "Name (set_escaped s t) r = Name s r"
  by (simp add: Name_def)

lemma escapeTemplate_fields:
  "heap (snd (escapeTemplate s r root nm oc)) =
     (heap s)(r := (heap s r)
        \<lparr>escapeErr := Some (case oc of None \<Rightarrow> escapeOK | Some m \<Rightarrow> EscapeFailed m)\<rparr>)"
  "spaces (snd (escapeTemplate s r root nm oc)) = spaces s"
  "nextT (snd (escapeTemplate s r root nm oc)) = nextT s"
  "nextNs (snd (escapeTemplate s r root nm oc)) = nextNs s"
  "escapeCalls (snd (escapeTemplate s r root nm oc)) = escapeCalls s @ [(r, nm)]"
  "executed (snd (escapeTemplate s r root nm oc)) = executed s"
  "eng (snd (escapeTemplate s r root nm oc)) = eng s"
  "fst (escapeTemplate s r root nm oc) = map_option EscapeFailed oc"
  by (simp_all add: escapeTemplate_def Let_def split: option.splits)

section \<open>The store invariant\<close>

lemma store_okI:
  assumes "\<And>ns k r. set_ns (spaces s ns) k = Some r
             \<Longrightarrow> r < nextT s \<and> nameSpace (heap s r) = ns"
    and "\<And>ns k1 k2 r. set_ns (spaces s ns) k1 = Some r \<Longrightarrow> set_ns (spaces s ns) k2 = Some r
             \<Longrightarrow> k1 = k2"
    and "\<And>r. r < nextT s \<Longrightarrow> nameSpace (heap s r) < nextNs s"
  shows "store_ok s"
  using assms unfolding store_ok_def by blast

lemma ok_reg:
  "store_ok s \<Longrightarrow> set_ns (spaces s ns) k = Some r \<Longrightarrow> r < nextT s \<and> nameSpace (heap s r) = ns"
  unfolding store_ok_def by blast

lemma ok_inj:
  "store_ok s \<Longrightarrow> set_ns (spaces s ns) k1 = Some r \<Longrightarrow> set_ns (spaces s ns) k2 = Some r
     \<Longrightarrow> k1 = k2"
  unfolding store_ok_def by blast

lemma ok_ns: "store_ok s \<Longrightarrow> r < nextT s \<Longrightarrow> nameSpace (heap s r) < nextNs s"
  unfolding store_ok_def by blast

lemma ok_fresh: "store_ok s \<Longrightarrow> nextT s \<le> r \<Longrightarrow> set_ns (spaces s ns) k \<noteq> Some r"
  using ok_reg[of s ns k r] by auto

lemma ok_registry: "store_ok s \<Longrightarrow> registry s t k = Some r \<Longrightarrow>
    r < nextT s \<and> nameSpace (heap s r) = nameSpace (heap s t)"
  unfolding registry_def by (rule ok_reg)

lemma ok_init: "store_ok init_state"
  by (simp add: store_ok_def init_state_def)

text \<open>The invariant reads the two heaps of this package and their counters only.\<close>

lemma ok_same:
  assumes "store_ok s"
    and "heap s' = heap s" "\<And>ns. set_ns (spaces s' ns) = set_ns (spaces s ns)"
    and "nextT s' = nextT s" "nextNs s' = nextNs s"
  shows "store_ok s'"
  using assms unfolding store_ok_def by simp

text \<open>A new name space with one new Template in it (\<open>New\<close>, the start of \<open>Clone\<close>).\<close>

lemma ok_new_space:
  assumes w: "store_ok s"
    and h: "heap s' = (heap s)(nextT s := tm)" and n: "nameSpace tm = nextNs s"
    and sp: "spaces s' = (spaces s)(nextNs s := \<lparr>set_ns = [nm \<mapsto> nextT s], escaped = b\<rparr>)"
    and c: "nextT s' = Suc (nextT s)" "nextNs s' = Suc (nextNs s)"
  shows "store_ok s'"
proof (rule store_okI)
  show "r < nextT s' \<and> nameSpace (heap s' r) = ns" if "set_ns (spaces s' ns) k = Some r" for ns k r
  proof (cases "ns = nextNs s")
    case True
    with that show ?thesis by (auto simp: h n sp c split: if_splits)
  next
    case False
    with that have "set_ns (spaces s ns) k = Some r" by (simp add: sp)
    from ok_reg[OF w this] show ?thesis by (auto simp: h c)
  qed
  show "k1 = k2" if "set_ns (spaces s' ns) k1 = Some r" "set_ns (spaces s' ns) k2 = Some r"
    for ns k1 k2 r
  proof (cases "ns = nextNs s")
    case True
    with that show ?thesis by (auto simp: sp split: if_splits)
  next
    case False
    with that have "set_ns (spaces s ns) k1 = Some r" "set_ns (spaces s ns) k2 = Some r"
      by (simp_all add: sp)
    from ok_inj[OF w this] show ?thesis .
  qed
  show "nameSpace (heap s' r) < nextNs s'" if "r < nextT s'" for r
    using that ok_ns[OF w, of r] by (auto simp: h n c less_Suc_eq)
qed

text \<open>
  A new Template registered in an existing name space (\<open>new\<close> for an unused name,
  \<open>AddParseTree\<close>, a round of \<open>Clone\<close>).
\<close>

lemma ok_alloc_put:
  assumes w: "store_ok s"
    and h: "heap s' = (heap s)(nextT s := tm)" and n: "nameSpace tm = n0" "n0 < nextNs s"
    and sp: "spaces s' = (spaces s)(n0 := (spaces s n0)
               \<lparr>set_ns := (set_ns (spaces s n0))(nm \<mapsto> nextT s)\<rparr>)"
    and c: "nextT s' = Suc (nextT s)" "nextNs s' = nextNs s"
  shows "store_ok s'"
proof (rule store_okI)
  show "r < nextT s' \<and> nameSpace (heap s' r) = ns" if "set_ns (spaces s' ns) k = Some r" for ns k r
  proof (cases "ns = n0 \<and> k = nm")
    case True
    with that show ?thesis by (auto simp: h n sp c)
  next
    case False
    with that have "set_ns (spaces s ns) k = Some r" by (auto simp: sp split: if_splits)
    from ok_reg[OF w this] show ?thesis by (auto simp: h c)
  qed
  show "k1 = k2" if "set_ns (spaces s' ns) k1 = Some r" "set_ns (spaces s' ns) k2 = Some r"
    for ns k1 k2 r
  proof (cases "r = nextT s")
    case True
    with that ok_fresh[OF w, of r ns] show ?thesis by (auto simp: sp split: if_splits)
  next
    case False
    with that have "set_ns (spaces s ns) k1 = Some r" "set_ns (spaces s ns) k2 = Some r"
      by (auto simp: sp split: if_splits)
    from ok_inj[OF w this] show ?thesis .
  qed
  show "nameSpace (heap s' r) < nextNs s'" if "r < nextT s'" for r
    using that ok_ns[OF w, of r] n by (auto simp: h c less_Suc_eq)
qed

text \<open>A write to fields of a Template other than its name space.\<close>

lemma ok_heap_upd:
  assumes w: "store_ok s"
    and h: "heap s' = (heap s)(r := tm)" and n: "nameSpace tm = nameSpace (heap s r)"
    and sp: "spaces s' = spaces s" and c: "nextT s' = nextT s" "nextNs s' = nextNs s"
  shows "store_ok s'"
  using w unfolding store_ok_def h sp c by (simp add: n)

lemma ok_New: "store_ok s \<Longrightarrow> store_ok (snd (New s nm))"
  by (erule ok_new_space[where nm = nm and b = False and
          tm = "\<lparr>escapeErr = None, textT = nextText (eng s), Tree = None, nameSpace = nextNs s\<rparr>"])
     (simp_all add: New_fields)

text \<open>
  \<open>new\<close> for a name in use: what is registered afterwards, among the Templates that
  existed before, was registered before, and the displaced Template is not among them.
\<close>

lemma new_present_registered:
  assumes w: "store_ok s" and t: "t < nextT s" and reg: "registry s t nm = Some ex"
    and a: "set_ns (spaces (snd (new s t nm)) ns) k = Some r" and r: "r < nextT s"
  shows "set_ns (spaces s ns) k = Some r \<and> r \<noteq> ex"
proof -
  let ?n = "nameSpace (heap s t)"
  from reg have reg': "set_ns (spaces s ?n) nm = Some ex" by (simp add: registry_def)
  from ok_reg[OF w reg'] have ex: "ex < nextT s" "nameSpace (heap s ex) = ?n" by auto
  from ok_ns[OF w t] have ns: "?n < nextNs s" .
  have "ex \<noteq> nextT s" "?n \<noteq> nextNs s" using ex ns by auto
  note f = new_fields_present[OF reg this]
  from a r have 1: "set_ns (spaces s ns) k = Some r" "\<not> (ns = ?n \<and> k = nm)"
    by (auto simp: f split: if_splits)
  have "r \<noteq> ex"
  proof
    assume "r = ex"
    with 1 ok_reg[OF w 1(1)] ex have "ns = ?n" by auto
    with 1 \<open>r = ex\<close> ok_inj[OF w reg', of k] show False by auto
  qed
  with 1 show ?thesis by simp
qed

lemma ok_new:
  assumes w: "store_ok s" and t: "t < nextT s"
  shows "store_ok (snd (new s t nm))"
proof (cases "registry s t nm")
  case None
  show ?thesis
    by (rule ok_alloc_put[OF w _ _ ok_ns[OF w t], where nm = nm and
          tm = "\<lparr>escapeErr = None, textT = nextText (eng s), Tree = None,
                 nameSpace = nameSpace (heap s t)\<rparr>"])
       (simp_all add: new_fields_absent[OF None])
next
  case (Some ex)
  let ?s = "snd (new s t nm)"
  let ?n = "nameSpace (heap s t)"
  from Some have reg: "set_ns (spaces s ?n) nm = Some ex"
    by (simp add: registry_def)
  from ok_reg[OF w reg] have ex: "ex < nextT s" "nameSpace (heap s ex) = ?n" by auto
  from ok_ns[OF w t] have ns: "?n < nextNs s" .
  have ne: "ex \<noteq> nextT s" "?n \<noteq> nextNs s" using ex ns by auto
  note f = new_fields_present[OF Some ne]
  note old = new_present_registered[OF w t Some]
  have new: "r < nextT s \<or> (r = nextT s \<and> ns = ?n \<and> k = nm) \<or> (r = Suc (nextT s) \<and> ns = nextNs s)"
    if "set_ns (spaces ?s ns) k = Some r" for ns k r
    using that ok_reg[OF w, of ns k r] by (auto simp: f split: if_splits)
  show ?thesis
  proof (rule store_okI)
    show "r < nextT ?s \<and> nameSpace (heap ?s r) = ns" if "set_ns (spaces ?s ns) k = Some r"
      for ns k r
      using new[OF that] old[OF that] ok_reg[OF w, of ns k r] ex by (auto simp: f)
    show "k1 = k2"
      if a: "set_ns (spaces ?s ns) k1 = Some r" and b: "set_ns (spaces ?s ns) k2 = Some r"
      for ns k1 k2 r
    proof (cases "r < nextT s")
      case True
      from old[OF a True] old[OF b True] ok_inj[OF w] show ?thesis by blast
    next
      case False
      with new[OF a] new[OF b] a b ne show ?thesis by (auto simp: f split: if_splits)
    qed
    show "nameSpace (heap ?s r) < nextNs ?s" if "r < nextT ?s" for r
      using that ok_ns[OF w, of r] ns by (auto simp: f less_Suc_eq)
  qed
qed

lemma ok_escapeTemplate: "store_ok s \<Longrightarrow> store_ok (snd (escapeTemplate s r root nm oc))"
  by (erule ok_heap_upd[where r = r and tm = "(heap s r)
          \<lparr>escapeErr := Some (case oc of None \<Rightarrow> escapeOK | Some m \<Rightarrow> EscapeFailed m)\<rparr>"])
     (simp_all add: escapeTemplate_fields)

lemma ok_set_escaped: "store_ok s \<Longrightarrow> store_ok (set_escaped s t)"
  by (erule ok_same) simp_all

subsection \<open>Definition operations keep the store invariant\<close>

lemma Parse_body_absent:
  assumes "registry s t (text_name (texts (eng s) v)) = None"
  shows "Parse_body s t v =
     (let s1 = snd (new s t (text_name (texts (eng s) v)))
      in s1\<lparr>heap := (heap s1)(nextT s := (heap s1 (nextT s))
              \<lparr>textT := v, Tree := text_Tree (texts (eng s1) v)\<rparr>)\<rparr>)"
  using assms new_fields_absent(1)[OF assms]
  by (simp add: Parse_body_def Let_def split_def)

lemma Parse_body_present:
  assumes "registry s t (text_name (texts (eng s) v)) = Some r"
  shows "Parse_body s t v =
     s\<lparr>heap := (heap s)(r := (heap s r)\<lparr>textT := v, Tree := text_Tree (texts (eng s) v)\<rparr>)\<rparr>"
  using assms by (simp add: Parse_body_def Let_def)

lemma nextT_new: "nextT s \<le> nextT (snd (new s t nm))"
  by (simp add: new_def alloc_def set_put_def New_def text_New_def text_Template_New_def Let_def split_def
      split: option.splits)

lemma nextT_Parse_body: "nextT s \<le> nextT (Parse_body s t v)"
  using nextT_new[of s t]
  by (simp add: Parse_body_def Let_def split_def split: option.splits)

lemma nextT_Parse_loop: "nextT s \<le> nextT (Parse_loop s t vs)"
proof (induction vs arbitrary: s)
  case Nil
  show ?case by simp
next
  case (Cons v vs)
  from nextT_Parse_body[of s t v] Cons[of "Parse_body s t v"] show ?case by simp
qed

lemma ok_Parse_body:
  assumes w: "store_ok s" and t: "t < nextT s"
  shows "store_ok (Parse_body s t v)"
proof (cases "registry s t (text_name (texts (eng s) v))")
  case None
  let ?s1 = "snd (new s t (text_name (texts (eng s) v)))"
  show ?thesis
    unfolding Parse_body_absent[OF None] Let_def
    by (rule ok_heap_upd[OF ok_new[OF w t], where r = "nextT s" and
          tm = "(heap ?s1 (nextT s))\<lparr>textT := v, Tree := text_Tree (texts (eng ?s1) v)\<rparr>"])
       simp_all
next
  case (Some r)
  show ?thesis
    unfolding Parse_body_present[OF Some]
    by (rule ok_heap_upd[OF w, where r = r and
          tm = "(heap s r)\<lparr>textT := v, Tree := text_Tree (texts (eng s) v)\<rparr>"])
       simp_all
qed

lemma ok_Parse_loop: "store_ok s \<Longrightarrow> t < nextT s \<Longrightarrow> store_ok (Parse_loop s t vs)"
proof (induction vs arbitrary: s)
  case Nil
  then show ?case by simp
next
  case (Cons v vs)
  from Cons.prems nextT_Parse_body[of s t v] have "t < nextT (Parse_body s t v)" by simp
  with Cons.IH[OF ok_Parse_body[OF Cons.prems]] show ?case by simp
qed

lemma ok_eng: "store_ok s \<Longrightarrow> store_ok (s\<lparr>eng := e\<rparr>)"
  by (erule ok_same) simp_all

lemma ok_Parse: "store_ok s \<Longrightarrow> t < nextT s \<Longrightarrow> store_ok (snd (Parse s t txt ans))"
  using ok_Parse_loop[of "s\<lparr>eng := fst ans\<rparr>" t] ok_eng[of s "fst ans"]
  by (cases ans) (auto simp: Parse_def split: option.splits sum.splits)

lemma nextT_Parse: "nextT s \<le> nextT (snd (Parse s t txt ans))"
  using nextT_Parse_loop[of "s\<lparr>eng := fst ans\<rparr>" t]
  by (cases ans) (auto simp: Parse_def split: option.splits sum.splits)

lemma AddParseTree_fields:
  assumes "\<not> escaped (spaces s (nameSpace (heap s t)))" "t \<noteq> nextT s"
  shows "fst (AddParseTree s t nm tree (e, Inr tx)) = Inr (nextT s)"
    "heap (snd (AddParseTree s t nm tree (e, Inr tx))) =
       (heap s)(nextT s := \<lparr>escapeErr = None, textT = tx, Tree = text_Tree (texts e tx),
                             nameSpace = nameSpace (heap s t)\<rparr>)"
    "spaces (snd (AddParseTree s t nm tree (e, Inr tx))) =
       (spaces s)(nameSpace (heap s t) := (spaces s (nameSpace (heap s t)))
          \<lparr>set_ns := (set_ns (spaces s (nameSpace (heap s t))))(nm \<mapsto> nextT s)\<rparr>)"
    "nextT (snd (AddParseTree s t nm tree (e, Inr tx))) = Suc (nextT s)"
    "nextNs (snd (AddParseTree s t nm tree (e, Inr tx))) = nextNs s"
    "escapeCalls (snd (AddParseTree s t nm tree (e, Inr tx))) = escapeCalls s"
    "executed (snd (AddParseTree s t nm tree (e, Inr tx))) = executed s"
    "eng (snd (AddParseTree s t nm tree (e, Inr tx))) = e"
  using assms
  by (simp_all add: AddParseTree_def checkCanParse_def alloc_def set_put_def Let_def)

lemma AddParseTree_cases:
  "snd (AddParseTree s t nm tree ans) = s \<or>
   (\<exists>m. snd (AddParseTree s t nm tree ans) = s\<lparr>eng := fst ans\<rparr> \<and> snd ans = Inl m) \<or>
   (\<exists>tx. \<not> escaped (spaces s (nameSpace (heap s t))) \<and> snd ans = Inr tx)"
  by (cases ans) (auto simp: AddParseTree_def checkCanParse_def split: sum.splits)

lemma ok_AddParseTree:
  assumes w: "store_ok s" and t: "t < nextT s"
  shows "store_ok (snd (AddParseTree s t nm tree ans))"
proof -
  obtain e res where ans: "ans = (e, res)" by (cases ans)
  from AddParseTree_cases[of s t nm tree ans] show ?thesis
  proof (elim disjE exE conjE)
    assume "snd (AddParseTree s t nm tree ans) = s"
    with w show ?thesis by simp
  next
    fix m assume "snd (AddParseTree s t nm tree ans) = s\<lparr>eng := fst ans\<rparr>"
    with ok_eng[OF w] show ?thesis by simp
  next
    fix tx assume a: "\<not> escaped (spaces s (nameSpace (heap s t)))" "snd ans = Inr tx"
    from t have ne: "t \<noteq> nextT s" by simp
    note f = AddParseTree_fields[OF a(1) ne, of nm tree e tx]
    from a ans have ans': "ans = (e, Inr tx)" by simp
    show ?thesis
      unfolding ans'
      by (rule ok_alloc_put[OF w _ _ ok_ns[OF w t], where nm = nm and
            tm = "\<lparr>escapeErr = None, textT = tx, Tree = text_Tree (texts e tx),
                   nameSpace = nameSpace (heap s t)\<rparr>"])
         (simp_all add: f)
  qed
qed

lemma nextT_AddParseTree: "nextT s \<le> nextT (snd (AddParseTree s t nm tree ans))"
  by (cases ans)
     (auto simp: AddParseTree_def alloc_def set_put_def Let_def split: option.splits sum.splits)

lemma nextT_New: "nextT s \<le> nextT (snd (New s nm))"
  by (simp add: New_fields)

lemma Clone_start_fields:
  "fst (Clone_start s tc) = nextT s"
  "heap (snd (Clone_start s tc)) =
     (heap s)(nextT s := \<lparr>escapeErr = None, textT = tc, Tree = text_Tree (texts (eng s) tc),
                           nameSpace = nextNs s\<rparr>)"
  "spaces (snd (Clone_start s tc)) =
     (spaces s)(nextNs s := \<lparr>set_ns = [text_name (texts (eng s) tc) \<mapsto> nextT s],
                             escaped = False\<rparr>)"
  "nextT (snd (Clone_start s tc)) = Suc (nextT s)"
  "nextNs (snd (Clone_start s tc)) = Suc (nextNs s)"
  "escapeCalls (snd (Clone_start s tc)) = escapeCalls s"
  "executed (snd (Clone_start s tc)) = executed s"
  "eng (snd (Clone_start s tc)) = eng s"
  by (simp_all add: Clone_start_def alloc_def set_put_def Name_def Let_def)

lemma ok_Clone_start: "store_ok s \<Longrightarrow> store_ok (snd (Clone_start s tc))"
  by (erule ok_new_space[where nm = "text_name (texts (eng s) tc)" and b = False and
          tm = "\<lparr>escapeErr = None, textT = tc, Tree = text_Tree (texts (eng s) tc),
                 nameSpace = nextNs s\<rparr>"])
     (simp_all add: Clone_start_fields)

lemma Clone_body_error:
  "\<not> Clone_body_ok s t x \<Longrightarrow>
     Clone_body s t ret x = (Some (CloneAfterExecution (Name s t)), s)"
  by (auto simp: Clone_body_def Clone_body_ok_def Let_def split: option.splits)

lemma Clone_body_fields:
  assumes "Clone_body_ok s t x" "ret \<noteq> nextT s"
  shows "fst (Clone_body s t ret x) = None"
    "heap (snd (Clone_body s t ret x)) =
       (heap s)(nextT s := \<lparr>escapeErr = None, textT = x,
                             Tree = snd (Tree_Copy (eng s) (text_Tree (texts (eng s) x))),
                             nameSpace = nameSpace (heap s ret)\<rparr>)"
    "spaces (snd (Clone_body s t ret x)) =
       (spaces s)(nameSpace (heap s ret) := (spaces s (nameSpace (heap s ret)))
          \<lparr>set_ns := (set_ns (spaces s (nameSpace (heap s ret))))
                       (text_name (texts (eng s) x) \<mapsto> nextT s)\<rparr>)"
    "nextT (snd (Clone_body s t ret x)) = Suc (nextT s)"
    "nextNs (snd (Clone_body s t ret x)) = nextNs s"
    "escapeCalls (snd (Clone_body s t ret x)) = escapeCalls s"
    "executed (snd (Clone_body s t ret x)) = executed s"
  using assms
  by (auto simp: Clone_body_def Clone_body_ok_def alloc_def set_put_def Let_def split_def
      split: option.splits)

lemma ok_Clone_body:
  assumes w: "store_ok s" and r: "ret < nextT s"
  shows "store_ok (snd (Clone_body s t ret x))"
proof (cases "Clone_body_ok s t x")
  case False
  with w show ?thesis by (simp add: Clone_body_error)
next
  case True
  from r have ne: "ret \<noteq> nextT s" by simp
  show ?thesis
    by (rule ok_alloc_put[OF w _ _ ok_ns[OF w r], where nm = "text_name (texts (eng s) x)" and
          tm = "\<lparr>escapeErr = None, textT = x,
                 Tree = snd (Tree_Copy (eng s) (text_Tree (texts (eng s) x))),
                 nameSpace = nameSpace (heap s ret)\<rparr>"])
       (simp_all add: Clone_body_fields[OF True ne])
qed

lemma nextT_Clone_body: "nextT s \<le> nextT (snd (Clone_body s t ret x))"
  by (auto simp: Clone_body_def alloc_def set_put_def Let_def split_def split: option.splits)

lemma nextT_Clone_loop: "nextT s \<le> nextT (snd (Clone_loop s t ret xs))"
proof (induction xs arbitrary: s)
  case Nil
  show ?case by simp
next
  case (Cons x xs)
  from nextT_Clone_body[of s t ret x] Cons[of "snd (Clone_body s t ret x)"]
  show ?case by (auto split: prod.splits option.splits)
qed

lemma ok_Clone_loop:
  "store_ok s \<Longrightarrow> ret < nextT s \<Longrightarrow> store_ok (snd (Clone_loop s t ret xs))"
proof (induction xs arbitrary: s)
  case Nil
  then show ?case by simp
next
  case (Cons x xs)
  let ?s = "snd (Clone_body s t ret x)"
  from Cons.prems nextT_Clone_body[of s t ret x] have "ret < nextT ?s" by simp
  from Cons.IH[OF ok_Clone_body[OF Cons.prems] this] ok_Clone_body[OF Cons.prems, of t x]
  show ?case by (auto split: prod.splits option.splits)
qed

lemma Clone_unfold:
  assumes "escapeErr (heap s t) = None"
  shows "Clone s t (e, Inr (tc, xs)) =
     (let c = Clone_loop (snd (Clone_start (s\<lparr>eng := e\<rparr>) tc)) t (nextT s) xs
      in case fst c of
           Some err \<Rightarrow> (Inl err, snd c)
         | None \<Rightarrow> (Inr (registry (snd c) (nextT s) (Name (snd c) (nextT s))), snd c))"
  using assms
  by (simp add: Clone_def Let_def split_def Clone_start_fields split: option.splits)

lemma Clone_state:
  "snd (Clone s t ans) = s \<or> snd (Clone s t ans) = s\<lparr>eng := fst ans\<rparr> \<or>
   (\<exists>tc xs. snd (Clone s t ans) =
       snd (Clone_loop (snd (Clone_start (s\<lparr>eng := fst ans\<rparr>) tc)) t (nextT s) xs))"
proof (cases "escapeErr (heap s t) = None")
  case False
  then show ?thesis by (simp add: Clone_def)
next
  case True
  obtain e res where ans: "ans = (e, res)" by (cases ans)
  show ?thesis
  proof (cases res)
    case (Inl m)
    with ans show ?thesis by (simp add: Clone_def)
  next
    case (Inr p)
    obtain tc xs where p: "p = (tc, xs)" by (cases p)
    have "snd (Clone s t ans) =
       snd (Clone_loop (snd (Clone_start (s\<lparr>eng := fst ans\<rparr>) tc)) t (nextT s) xs)"
      unfolding ans Inr p Clone_unfold[OF True] by (simp add: Let_def split: option.splits)
    then show ?thesis by blast
  qed
qed

lemma ok_Clone: assumes w: "store_ok s" shows "store_ok (snd (Clone s t ans))"
proof -
  have "store_ok (snd (Clone_loop (snd (Clone_start (s\<lparr>eng := fst ans\<rparr>) tc)) t (nextT s) xs))"
    for tc xs
    by (rule ok_Clone_loop[OF ok_Clone_start[OF ok_eng[OF w]]]) (simp add: Clone_start_fields)
  with Clone_state[of s t ans] w ok_eng[OF w, of "fst ans"] show ?thesis by auto
qed

lemma nextT_Clone: "nextT s \<le> nextT (snd (Clone s t ans))"
proof -
  have "nextT s \<le> nextT (snd (Clone_loop (snd (Clone_start (s\<lparr>eng := fst ans\<rparr>) tc)) t (nextT s) xs))"
    for tc xs
    using nextT_Clone_loop[of "snd (Clone_start (s\<lparr>eng := fst ans\<rparr>) tc)" t "nextT s" xs]
    by (simp add: Clone_start_fields)
  with Clone_state[of s t ans] show ?thesis by auto
qed

subsection \<open>Execution keeps the store invariant\<close>

lemma ok_escape: "store_ok s \<Longrightarrow> store_ok (snd (escape s t oc))"
  by (auto simp: escape_def Let_def ok_set_escaped ok_escapeTemplate split: option.splits)

lemma ok_executed: "store_ok s \<Longrightarrow> store_ok (s\<lparr>executed := xs\<rparr>)"
  by (erule ok_same) simp_all

lemma ok_Execute: "store_ok s \<Longrightarrow> store_ok (snd (Execute s t oc res))"
  using ok_escape[of s t oc]
  by (auto simp: Execute_def text_Execute_def ok_executed split: prod.splits option.splits)

lemma ok_lookupAndEscapeTemplate:
  "store_ok s \<Longrightarrow> store_ok (snd (lookupAndEscapeTemplate s t nm oc))"
  by (auto simp: lookupAndEscapeTemplate_def Let_def split_def ok_set_escaped ok_escapeTemplate
      split: option.splits)

lemma ok_ExecuteTemplate: "store_ok s \<Longrightarrow> store_ok (snd (ExecuteTemplate s t nm oc res))"
  using ok_lookupAndEscapeTemplate[of s t nm oc]
  by (auto simp: ExecuteTemplate_def text_Execute_def ok_executed split: prod.splits option.splits)

lemma nextT_escape: "nextT (snd (escape s t oc)) = nextT s"
  by (auto simp: escape_def Let_def escapeTemplate_fields split: option.splits)

lemma nextT_Execute: "nextT (snd (Execute s t oc res)) = nextT s"
  using nextT_escape[of s t oc]
  by (auto simp: Execute_def text_Execute_def split: prod.splits option.splits)

lemma nextT_lookupAndEscapeTemplate: "nextT (snd (lookupAndEscapeTemplate s t nm oc)) = nextT s"
  by (auto simp: lookupAndEscapeTemplate_def Let_def split_def escapeTemplate_fields
      split: option.splits)

lemma nextT_ExecuteTemplate: "nextT (snd (ExecuteTemplate s t nm oc res)) = nextT s"
  using nextT_lookupAndEscapeTemplate[of s t nm oc]
  by (auto simp: ExecuteTemplate_def text_Execute_def split: prod.splits option.splits)

subsection \<open>Files, and whole sequences of calls\<close>

lemma ok_Template_New: "store_ok s \<Longrightarrow> t < nextT s \<Longrightarrow> store_ok (snd (Template_New s t nm))"
  unfolding Template_New_def by (rule ok_new)

lemma nextT_Template_New: "nextT s \<le> nextT (snd (Template_New s t nm))"
  unfolding Template_New_def by (rule nextT_new)

lemma fst_new: "fst (new s t nm) = nextT s"
  by (simp add: new_def alloc_def Let_def split_def)

lemma new_lt: "fst (new s t nm) < nextT (snd (new s t nm))"
  by (simp add: new_def alloc_def set_put_def New_def text_New_def text_Template_New_def Let_def split_def
      split: option.splits)

text \<open>
  The first lines of a round of \<open>parseFiles\<close>: the receiver (created for the first file of
  the package-level call) and the Template the file is parsed into.
\<close>

lemma ok_parseFiles_loop:
  "store_ok s \<Longrightarrow> is_handle_opt s t \<Longrightarrow> store_ok (snd (parseFiles_loop s t fs))"
proof (induction fs arbitrary: s t)
  case Nil
  then show ?case by simp
next
  case (Cons f fs)
  show ?case
  proof (cases "contents f")
    case (Inl m)
    with Cons.prems show ?thesis by simp
  next
    case (Inr body)
    define p1 where "p1 = (case t of None \<Rightarrow> New s (base f) | Some r \<Rightarrow> (r, s))"
    define p2 where "p2 = (if base f = Name (snd p1) (fst p1) then p1
                           else Template_New (snd p1) (fst p1) (base f))"
    define p3 where "p3 = Parse (snd p2) (fst p2) body (parsed f)"
    have 1: "store_ok (snd p1) \<and> fst p1 < nextT (snd p1)"
      using Cons.prems
      by (auto simp: p1_def is_handle_opt_def is_handle_def New_fields ok_New split: option.splits)
    have 2: "store_ok (snd p2) \<and> fst p2 < nextT (snd p2) \<and> fst p1 < nextT (snd p2)"
      using 1 ok_Template_New[of "snd p1" "fst p1" "base f"]
        nextT_Template_New[of "snd p1" "fst p1" "base f"]
        new_lt[of "snd p1" "fst p1" "base f"]
      by (auto simp: p2_def Template_New_def)
    have 3: "store_ok (snd p3) \<and> fst p1 < nextT (snd p3)"
      using 2 ok_Parse[of "snd p2" "fst p2" body "parsed f"]
        nextT_Parse[of "snd p2" "fst p2" body "parsed f"]
      by (auto simp: p3_def)
    have "snd (parseFiles_loop s t (f # fs)) = snd p3 \<or>
          snd (parseFiles_loop s t (f # fs)) = snd (parseFiles_loop (snd p3) (Some (fst p1)) fs)"
      using Inr
      by (auto simp: p1_def p2_def p3_def Let_def split_def split: sum.splits)
    with 3 Cons.IH[of "snd p3" "Some (fst p1)"] show ?thesis
      by (auto simp: is_handle_opt_def is_handle_def)
  qed
qed

lemma ok_parseFiles:
  "store_ok s \<Longrightarrow> is_handle_opt s t \<Longrightarrow> store_ok (snd (parseFiles s t fs))"
  using ok_parseFiles_loop[of s t fs]
  by (auto simp: parseFiles_def split: option.splits)

lemma ok_parseGlob:
  "store_ok s \<Longrightarrow> is_handle_opt s t \<Longrightarrow> store_ok (snd (parseGlob s t pattern glob))"
  using ok_parseFiles[of s t]
  by (auto simp: parseGlob_def split: option.splits sum.splits)

lemma ok_step: assumes w: "store_ok s" shows "store_ok (step s c)"
proof (cases "is_handle_opt s (receiver c)")
  case False
  with w show ?thesis by (simp add: step_def)
next
  case True
  then have "store_ok (perform s c)"
    using w
    by (cases c)
       (simp_all add: is_handle_opt_def is_handle_def ok_New ok_Template_New ok_Parse
          ok_AddParseTree ok_Clone ok_Execute ok_ExecuteTemplate ok_parseFiles ok_parseGlob)
  with True show ?thesis by (simp add: step_def)
qed

lemma ok_foldl: "store_ok s \<Longrightarrow> store_ok (foldl step s cs)"
  by (induction cs arbitrary: s) (simp_all add: ok_step)

lemma ok_run: "store_ok (run cs)"
  unfolding run_def by (rule ok_foldl[OF ok_init])

section \<open>The escape transform runs at most once on a Template\<close>

lemma onceI:
  assumes "distinct (map fst (escapeCalls s))"
    and "\<And>r nm. (r, nm) \<in> set (escapeCalls s) \<Longrightarrow> r < nextT s"
    and "\<And>r nm. (r, nm) \<in> set (escapeCalls s) \<Longrightarrow> escapeErr (heap s r) = None
           \<Longrightarrow> Tree (heap s r) = None \<and> \<not> registered s r"
  shows "escaped_once s"
  using assms unfolding escaped_once_def by blast

lemma once_distinct: "escaped_once s \<Longrightarrow> distinct (map fst (escapeCalls s))"
  unfolding escaped_once_def by blast

lemma once_lt: "escaped_once s \<Longrightarrow> (r, nm) \<in> set (escapeCalls s) \<Longrightarrow> r < nextT s"
  unfolding escaped_once_def by blast

lemma once_reset:
  "escaped_once s \<Longrightarrow> (r, nm) \<in> set (escapeCalls s) \<Longrightarrow> escapeErr (heap s r) = None
     \<Longrightarrow> Tree (heap s r) = None \<and> \<not> registered s r"
  unfolding escaped_once_def by blast

lemma once_init: "escaped_once init_state"
  by (simp add: escaped_once_def init_state_def)

lemma registeredI: "set_ns (spaces s ns) k = Some r \<Longrightarrow> registered s r"
  unfolding registered_def by blast

lemma registered_registry: "registry s t k = Some r \<Longrightarrow> registered s r"
  unfolding registry_def by (rule registeredI)

text \<open>
  A step that records no escape and, on each Template that existed, either leaves it as it
  is or resets it and leaves it out of every registry, and that registers no old Template
  that was not registered.
\<close>

lemma once_grow:
  assumes o: "escaped_once s" and log: "escapeCalls s' = escapeCalls s"
    and nT: "nextT s \<le> nextT s'"
    and h: "\<And>r. r < nextT s \<Longrightarrow> heap s' r = heap s r \<or>
              (Tree (heap s' r) = None \<and> \<not> registered s' r)"
    and reg: "\<And>r. r < nextT s \<Longrightarrow> registered s' r \<Longrightarrow> registered s r"
  shows "escaped_once s'"
proof (rule onceI)
  show "distinct (map fst (escapeCalls s'))" using once_distinct[OF o] by (simp add: log)
  fix r nm assume "(r, nm) \<in> set (escapeCalls s')"
  then have m: "(r, nm) \<in> set (escapeCalls s)" by (simp add: log)
  from once_lt[OF o m] have r: "r < nextT s" .
  with nT show "r < nextT s'" by simp
  assume e: "escapeErr (heap s' r) = None"
  from h[OF r] show "Tree (heap s' r) = None \<and> \<not> registered s' r"
  proof
    assume same: "heap s' r = heap s r"
    with e once_reset[OF o m] reg[OF r] show ?thesis by auto
  qed simp
qed

lemma once_same:
  assumes "escaped_once s"
    and "heap s' = heap s" "\<And>ns. set_ns (spaces s' ns) = set_ns (spaces s ns)"
    and "nextT s' = nextT s" "escapeCalls s' = escapeCalls s"
  shows "escaped_once s'"
  using assms unfolding escaped_once_def registered_def by simp

lemma registered_new_space:
  assumes "spaces s' = (spaces s)(nextNs s := \<lparr>set_ns = [nm \<mapsto> nextT s], escaped = b\<rparr>)"
    and "r < nextT s" "registered s' r"
  shows "registered s r"
  using assms unfolding registered_def by (auto split: if_splits)

lemma registered_alloc_put:
  assumes "spaces s' = (spaces s)(n0 := (spaces s n0)
             \<lparr>set_ns := (set_ns (spaces s n0))(nm \<mapsto> nextT s)\<rparr>)"
    and "r < nextT s" "registered s' r"
  shows "registered s r"
  using assms unfolding registered_def by (auto split: if_splits)

lemma once_New: "escaped_once s \<Longrightarrow> escaped_once (snd (New s nm))"
proof (erule once_grow)
  show "registered s r" if "r < nextT s" "registered (snd (New s nm)) r" for r
    using that by (rule registered_new_space[OF New_fields(3)])
qed (simp_all add: New_fields)

lemma once_new:
  assumes w: "store_ok s" and t: "t < nextT s" and o: "escaped_once s"
  shows "escaped_once (snd (new s t nm))"
proof (cases "registry s t nm")
  case None
  note f = new_fields_absent[OF None]
  show ?thesis
  proof (rule once_grow[OF o])
    show "registered s r" if "r < nextT s" "registered (snd (new s t nm)) r" for r
      using that by (rule registered_alloc_put[OF f(3)])
  qed (simp_all add: f)
next
  case (Some ex)
  let ?s = "snd (new s t nm)"
  from Some have reg: "set_ns (spaces s (nameSpace (heap s t))) nm = Some ex"
    by (simp add: registry_def)
  from ok_reg[OF w reg] have ex: "ex < nextT s" by auto
  from ok_ns[OF w t] have ns: "nameSpace (heap s t) < nextNs s" .
  have ne: "ex \<noteq> nextT s" "nameSpace (heap s t) \<noteq> nextNs s" using ex ns by auto
  note f = new_fields_present[OF Some ne]
  note old = new_present_registered[OF w t Some]
  show ?thesis
  proof (rule once_grow[OF o])
    show "registered s r" if "r < nextT s" "registered ?s r" for r
      using that old[of _ _ r] unfolding registered_def by blast
    show "heap ?s r = heap s r \<or> (Tree (heap ?s r) = None \<and> \<not> registered ?s r)"
      if "r < nextT s" for r
    proof (cases "r = ex")
      case True
      have "\<not> registered ?s ex" using old[of _ _ ex] ex unfolding registered_def by blast
      with True show ?thesis by (simp add: f)
    next
      case False
      with that show ?thesis by (simp add: f)
    qed
  qed (simp_all add: f)
qed

text \<open>A write to a registered Template that keeps its escape outcome (\<open>Parse\<close>).\<close>

lemma once_heap_upd:
  assumes o: "escaped_once s" and r: "registered s r"
    and h: "heap s' = (heap s)(r := tm)" and e: "escapeErr tm = escapeErr (heap s r)"
    and sp: "spaces s' = spaces s" and c: "nextT s' = nextT s" "escapeCalls s' = escapeCalls s"
  shows "escaped_once s'"
proof (rule onceI)
  have reg: "registered s' = registered s" by (simp add: registered_def fun_eq_iff sp)
  show "distinct (map fst (escapeCalls s'))" using once_distinct[OF o] by (simp add: c)
  fix q nm assume "(q, nm) \<in> set (escapeCalls s')"
  then have m: "(q, nm) \<in> set (escapeCalls s)" by (simp add: c)
  from once_lt[OF o m] show "q < nextT s'" by (simp add: c)
  assume u: "escapeErr (heap s' q) = None"
  then have u': "escapeErr (heap s q) = None" by (auto simp: h e split: if_splits)
  from once_reset[OF o m u'] r have "q \<noteq> r" by auto
  with once_reset[OF o m u'] show "Tree (heap s' q) = None \<and> \<not> registered s' q"
    by (simp add: h reg)
qed

lemma once_Parse_body:
  assumes w: "store_ok s" and t: "t < nextT s" and o: "escaped_once s"
  shows "escaped_once (Parse_body s t v)"
proof (cases "registry s t (text_name (texts (eng s) v))")
  case None
  let ?nm = "text_name (texts (eng s) v)"
  let ?s1 = "snd (new s t ?nm)"
  have "set_ns (spaces ?s1 (nameSpace (heap s t))) ?nm = Some (nextT s)"
    by (simp add: new_fields_absent[OF None])
  then have r: "registered ?s1 (nextT s)" by (rule registeredI)
  show ?thesis
    unfolding Parse_body_absent[OF None] Let_def
    by (rule once_heap_upd[OF once_new[OF w t o] r, where
          tm = "(heap ?s1 (nextT s))\<lparr>textT := v, Tree := text_Tree (texts (eng ?s1) v)\<rparr>"])
       simp_all
next
  case (Some r)
  show ?thesis
    unfolding Parse_body_present[OF Some]
    by (rule once_heap_upd[OF o registered_registry[OF Some], where
          tm = "(heap s r)\<lparr>textT := v, Tree := text_Tree (texts (eng s) v)\<rparr>"])
       simp_all
qed

lemma once_Parse_loop:
  "store_ok s \<Longrightarrow> t < nextT s \<Longrightarrow> escaped_once s \<Longrightarrow> escaped_once (Parse_loop s t vs)"
proof (induction vs arbitrary: s)
  case Nil
  then show ?case by simp
next
  case (Cons v vs)
  from Cons.prems nextT_Parse_body[of s t v] have "t < nextT (Parse_body s t v)" by simp
  from Cons.IH[OF ok_Parse_body[OF Cons.prems(1,2)] this once_Parse_body[OF Cons.prems]]
  show ?case by simp
qed

lemma once_eng: "escaped_once s \<Longrightarrow> escaped_once (s\<lparr>eng := e\<rparr>)"
  by (erule once_same) simp_all

lemma once_Parse:
  "store_ok s \<Longrightarrow> t < nextT s \<Longrightarrow> escaped_once s \<Longrightarrow> escaped_once (snd (Parse s t txt ans))"
  using once_Parse_loop[of "s\<lparr>eng := fst ans\<rparr>" t] ok_eng[of s "fst ans"]
    once_eng[of s "fst ans"]
  by (cases ans) (auto simp: Parse_def split: option.splits sum.splits)

lemma once_AddParseTree:
  assumes t: "t < nextT s" and o: "escaped_once s"
  shows "escaped_once (snd (AddParseTree s t nm tree ans))"
proof -
  obtain e res where ans: "ans = (e, res)" by (cases ans)
  from AddParseTree_cases[of s t nm tree ans] show ?thesis
  proof (elim disjE exE conjE)
    assume "snd (AddParseTree s t nm tree ans) = s"
    with o show ?thesis by simp
  next
    fix m assume "snd (AddParseTree s t nm tree ans) = s\<lparr>eng := fst ans\<rparr>"
    with once_eng[OF o] show ?thesis by simp
  next
    fix tx assume a: "\<not> escaped (spaces s (nameSpace (heap s t)))" "snd ans = Inr tx"
    from t have ne: "t \<noteq> nextT s" by simp
    note f = AddParseTree_fields[OF a(1) ne, of nm tree e tx]
    from a ans have ans': "ans = (e, Inr tx)" by simp
    show ?thesis
      unfolding ans'
    proof (rule once_grow[OF o])
      show "registered s r"
        if "r < nextT s" "registered (snd (AddParseTree s t nm tree (e, Inr tx))) r" for r
        using that by (rule registered_alloc_put[OF f(3)])
    qed (simp_all add: f)
  qed
qed

lemma once_escapeTemplate:
  assumes o: "escaped_once s" and r: "r < nextT s" and u: "escapeErr (heap s r) = None"
    and c: "Tree (heap s r) \<noteq> None \<or> registered s r"
  shows "escaped_once (snd (escapeTemplate s r root nm oc))"
proof (rule onceI)
  let ?s = "snd (escapeTemplate s r root nm oc)"
  have reg: "registered ?s = registered s"
    by (simp add: registered_def fun_eq_iff escapeTemplate_fields)
  have n: "(r, k) \<notin> set (escapeCalls s)" for k
    using once_reset[OF o _ u, of k] c by auto
  then have "r \<notin> fst ` set (escapeCalls s)" by force
  then show "distinct (map fst (escapeCalls ?s))"
    using once_distinct[OF o] by (simp add: escapeTemplate_fields)
  fix q k assume q: "(q, k) \<in> set (escapeCalls ?s)"
  then have q': "q = r \<or> (q, k) \<in> set (escapeCalls s)"
    by (auto simp: escapeTemplate_fields)
  show "q < nextT ?s" using q' r once_lt[OF o] by (auto simp: escapeTemplate_fields)
  assume e: "escapeErr (heap ?s q) = None"
  then have "q \<noteq> r" by (auto simp: escapeTemplate_fields)
  with q' e have "(q, k) \<in> set (escapeCalls s)" "escapeErr (heap s q) = None"
    by (auto simp: escapeTemplate_fields)
  from once_reset[OF o this] \<open>q \<noteq> r\<close>
  show "Tree (heap ?s q) = None \<and> \<not> registered ?s q"
    by (simp add: escapeTemplate_fields reg)
qed

lemma once_Clone_start: "escaped_once s \<Longrightarrow> escaped_once (snd (Clone_start s tc))"
proof (erule once_grow)
  show "registered s r" if "r < nextT s" "registered (snd (Clone_start s tc)) r" for r
    using that by (rule registered_new_space[OF Clone_start_fields(3)])
qed (simp_all add: Clone_start_fields)

lemma once_Clone_body:
  assumes r: "ret < nextT s" and o: "escaped_once s"
  shows "escaped_once (snd (Clone_body s t ret x))"
proof (cases "Clone_body_ok s t x")
  case False
  with o show ?thesis by (simp add: Clone_body_error)
next
  case True
  from r have ne: "ret \<noteq> nextT s" by simp
  note f = Clone_body_fields[OF True ne]
  show ?thesis
  proof (rule once_grow[OF o])
    show "registered s q" if "q < nextT s" "registered (snd (Clone_body s t ret x)) q" for q
      using that by (rule registered_alloc_put[OF f(3)])
  qed (simp_all add: f)
qed

lemma once_Clone_loop:
  "ret < nextT s \<Longrightarrow> escaped_once s \<Longrightarrow> escaped_once (snd (Clone_loop s t ret xs))"
proof (induction xs arbitrary: s)
  case Nil
  then show ?case by simp
next
  case (Cons x xs)
  let ?s = "snd (Clone_body s t ret x)"
  from Cons.prems nextT_Clone_body[of s t ret x] have "ret < nextT ?s" by simp
  from Cons.IH[OF this once_Clone_body[OF Cons.prems]] once_Clone_body[OF Cons.prems, of t x]
  show ?case by (auto split: prod.splits option.splits)
qed

lemma once_Clone: assumes o: "escaped_once s" shows "escaped_once (snd (Clone s t ans))"
proof -
  have "escaped_once (snd (Clone_loop (snd (Clone_start (s\<lparr>eng := fst ans\<rparr>) tc)) t (nextT s) xs))"
    for tc xs
    by (rule once_Clone_loop[OF _ once_Clone_start[OF once_eng[OF o]]])
       (simp add: Clone_start_fields)
  with Clone_state[of s t ans] o once_eng[OF o, of "fst ans"] show ?thesis by auto
qed

lemma once_set_escaped: "escaped_once s \<Longrightarrow> escaped_once (set_escaped s t)"
  by (erule once_same) simp_all

lemma registered_set_escaped [simp]: "registered (set_escaped s t) = registered s"
  by (simp add: registered_def fun_eq_iff)

lemma once_escape:
  assumes t: "t < nextT s" and o: "escaped_once s"
  shows "escaped_once (snd (escape s t oc))"
proof -
  have "escaped_once (snd (escapeTemplate (set_escaped s t) t root nm oc))"
    if "escapeErr (heap s t) = None" "Tree (heap s t) \<noteq> None" for root nm
    by (rule once_escapeTemplate[OF once_set_escaped[OF o]]) (use t that in simp_all)
  with once_set_escaped[OF o, of t] show ?thesis
    by (auto simp: escape_def Let_def split: option.splits)
qed

lemma once_executed: "escaped_once s \<Longrightarrow> escaped_once (s\<lparr>executed := xs\<rparr>)"
  by (erule once_same) simp_all

lemma once_Execute:
  "t < nextT s \<Longrightarrow> escaped_once s \<Longrightarrow> escaped_once (snd (Execute s t oc res))"
  using once_escape[of t s oc]
  by (auto simp: Execute_def text_Execute_def once_executed split: prod.splits option.splits)

lemma once_lookupAndEscapeTemplate:
  assumes w: "store_ok s" and o: "escaped_once s"
  shows "escaped_once (snd (lookupAndEscapeTemplate s t nm oc))"
proof -
  have "escaped_once (snd (escapeTemplate (set_escaped s t) r root nm oc))"
    if "registry s t nm = Some r" "escapeErr (heap s r) = None" for r root
    by (rule once_escapeTemplate[OF once_set_escaped[OF o]])
       (use that ok_registry[OF w that(1)] registered_registry[OF that(1)] in simp_all)
  with once_set_escaped[OF o, of t] show ?thesis
    by (auto simp: lookupAndEscapeTemplate_def Let_def split_def split: option.splits)
qed

lemma once_ExecuteTemplate:
  "store_ok s \<Longrightarrow> escaped_once s \<Longrightarrow> escaped_once (snd (ExecuteTemplate s t nm oc res))"
  using once_lookupAndEscapeTemplate[of s t nm oc]
  by (auto simp: ExecuteTemplate_def text_Execute_def once_executed
      split: prod.splits option.splits)

lemma once_Template_New:
  "store_ok s \<Longrightarrow> t < nextT s \<Longrightarrow> escaped_once s \<Longrightarrow> escaped_once (snd (Template_New s t nm))"
  unfolding Template_New_def by (rule once_new)

lemma once_parseFiles_loop:
  "store_ok s \<Longrightarrow> is_handle_opt s t \<Longrightarrow> escaped_once s
     \<Longrightarrow> escaped_once (snd (parseFiles_loop s t fs))"
proof (induction fs arbitrary: s t)
  case Nil
  then show ?case by simp
next
  case (Cons f fs)
  show ?case
  proof (cases "contents f")
    case (Inl m)
    with Cons.prems show ?thesis by simp
  next
    case (Inr body)
    define p1 where "p1 = (case t of None \<Rightarrow> New s (base f) | Some r \<Rightarrow> (r, s))"
    define p2 where "p2 = (if base f = Name (snd p1) (fst p1) then p1
                           else Template_New (snd p1) (fst p1) (base f))"
    define p3 where "p3 = Parse (snd p2) (fst p2) body (parsed f)"
    have 1: "store_ok (snd p1) \<and> fst p1 < nextT (snd p1) \<and> escaped_once (snd p1)"
      using Cons.prems
      by (auto simp: p1_def is_handle_opt_def is_handle_def New_fields ok_New once_New
          split: option.splits)
    have 2: "store_ok (snd p2) \<and> fst p2 < nextT (snd p2) \<and> fst p1 < nextT (snd p2) \<and>
             escaped_once (snd p2)"
      using 1 ok_Template_New[of "snd p1" "fst p1" "base f"]
        nextT_Template_New[of "snd p1" "fst p1" "base f"]
        new_lt[of "snd p1" "fst p1" "base f"]
        once_Template_New[of "snd p1" "fst p1" "base f"]
      by (auto simp: p2_def Template_New_def)
    have 3: "store_ok (snd p3) \<and> fst p1 < nextT (snd p3) \<and> escaped_once (snd p3)"
      using 2 ok_Parse[of "snd p2" "fst p2" body "parsed f"]
        nextT_Parse[of "snd p2" "fst p2" body "parsed f"]
        once_Parse[of "snd p2" "fst p2" body "parsed f"]
      by (auto simp: p3_def)
    have "snd (parseFiles_loop s t (f # fs)) = snd p3 \<or>
          snd (parseFiles_loop s t (f # fs)) = snd (parseFiles_loop (snd p3) (Some (fst p1)) fs)"
      using Inr
      by (auto simp: p1_def p2_def p3_def Let_def split_def split: sum.splits)
    with 3 Cons.IH[of "snd p3" "Some (fst p1)"] show ?thesis
      by (auto simp: is_handle_opt_def is_handle_def)
  qed
qed

lemma once_parseFiles:
  "store_ok s \<Longrightarrow> is_handle_opt s t \<Longrightarrow> escaped_once s
     \<Longrightarrow> escaped_once (snd (parseFiles s t fs))"
  using once_parseFiles_loop[of s t fs]
  by (auto simp: parseFiles_def split: option.splits)

lemma once_parseGlob:
  "store_ok s \<Longrightarrow> is_handle_opt s t \<Longrightarrow> escaped_once s
     \<Longrightarrow> escaped_once (snd (parseGlob s t pattern glob))"
  using once_parseFiles[of s t]
  by (auto simp: parseGlob_def split: option.splits sum.splits)

lemma once_step:
  assumes w: "store_ok s" and o: "escaped_once s"
  shows "escaped_once (step s c)"
proof (cases "is_handle_opt s (receiver c)")
  case False
  with o show ?thesis by (simp add: step_def)
next
  case True
  then have "escaped_once (perform s c)"
    using w o
    by (cases c)
       (simp_all add: is_handle_opt_def is_handle_def once_New once_Template_New once_Parse
          once_AddParseTree once_Clone once_Execute once_ExecuteTemplate once_parseFiles
          once_parseGlob)
  with True show ?thesis by (simp add: step_def)
qed

lemma once_foldl: "store_ok s \<Longrightarrow> escaped_once s \<Longrightarrow> escaped_once (foldl step s cs)"
  by (induction cs arbitrary: s) (simp_all add: ok_step once_step)

lemma once_run: "escaped_once (run cs)"
  unfolding run_def by (rule once_foldl[OF ok_init once_init])

section \<open>What execution changes\<close>

lemma escape_frame:
  "spaces (snd (escape s t oc)) = spaces (set_escaped s t)"
  "nameSpace (heap (snd (escape s t oc)) r) = nameSpace (heap s r)"
  "executed (snd (escape s t oc)) = executed s"
  "eng (snd (escape s t oc)) = eng s"
  "textT (heap (snd (escape s t oc)) r) = textT (heap s r)"
  by (auto simp: escape_def Let_def escapeTemplate_fields split: option.splits)

lemma lookupAndEscapeTemplate_frame:
  "spaces (snd (lookupAndEscapeTemplate s t nm oc)) = spaces (set_escaped s t)"
  "nameSpace (heap (snd (lookupAndEscapeTemplate s t nm oc)) r) = nameSpace (heap s r)"
  "executed (snd (lookupAndEscapeTemplate s t nm oc)) = executed s"
  "eng (snd (lookupAndEscapeTemplate s t nm oc)) = eng s"
  "textT (heap (snd (lookupAndEscapeTemplate s t nm oc)) r) = textT (heap s r)"
  by (auto simp: lookupAndEscapeTemplate_def Let_def split_def escapeTemplate_fields
      split: option.splits)

lemma Execute_frame:
  "spaces (snd (Execute s t oc res)) = spaces (set_escaped s t)"
  "nameSpace (heap (snd (Execute s t oc res)) r) = nameSpace (heap s r)"
  using escape_frame[of s t oc]
  by (auto simp: Execute_def text_Execute_def split: prod.splits option.splits)

lemma ExecuteTemplate_frame:
  "spaces (snd (ExecuteTemplate s t nm oc res)) = spaces (set_escaped s t)"
  "nameSpace (heap (snd (ExecuteTemplate s t nm oc res)) r) = nameSpace (heap s r)"
  using lookupAndEscapeTemplate_frame[of s t nm oc]
  by (auto simp: ExecuteTemplate_def text_Execute_def split: prod.splits option.splits)

section \<open>What the definition operations leave alone\<close>

lemma new_old:
  assumes w: "store_ok s" and t: "t < nextT s" and r: "r < nextT s"
    and n: "registry s t nm \<noteq> Some r"
  shows "heap (snd (new s t nm)) r = heap s r"
proof (cases "registry s t nm")
  case None
  with r show ?thesis by (simp add: new_fields_absent)
next
  case (Some ex)
  from ok_registry[OF w Some] ok_ns[OF w t]
  have "ex \<noteq> nextT s" "nameSpace (heap s t) \<noteq> nextNs s" by auto
  note f = new_fields_present[OF Some this]
  from n Some r show ?thesis by (simp add: f)
qed

lemma new_displaced:
  assumes w: "store_ok s" and t: "t < nextT s" and reg: "registry s t nm = Some ex"
  shows "heap (snd (new s t nm)) ex =
           \<lparr>escapeErr = None, textT = Suc (nextText (eng s)), Tree = None,
            nameSpace = nextNs s\<rparr>"
proof -
  from ok_registry[OF w reg] ok_ns[OF w t]
  have "ex \<noteq> nextT s" "nameSpace (heap s t) \<noteq> nextNs s" by auto
  note f = new_fields_present[OF reg this]
  show ?thesis by (simp add: f)
qed

lemma Parse_body_old:
  assumes w: "store_ok s" and t: "t < nextT s" and r: "r < nextT s"
  shows "escapeErr (heap (Parse_body s t v) r) = escapeErr (heap s r)"
    and "nameSpace (heap (Parse_body s t v) r) = nameSpace (heap s r)"
proof -
  have "escapeErr (heap (Parse_body s t v) r) = escapeErr (heap s r) \<and>
        nameSpace (heap (Parse_body s t v) r) = nameSpace (heap s r)"
  proof (cases "registry s t (text_name (texts (eng s) v))")
    case None
    with r show ?thesis
      by (simp add: Parse_body_absent[OF None] Let_def new_fields_absent[OF None])
  next
    case (Some q)
    then show ?thesis by (simp add: Parse_body_present[OF Some])
  qed
  then show "escapeErr (heap (Parse_body s t v) r) = escapeErr (heap s r)"
    and "nameSpace (heap (Parse_body s t v) r) = nameSpace (heap s r)" by simp_all
qed

lemma Parse_loop_old:
  "store_ok s \<Longrightarrow> t < nextT s \<Longrightarrow> r < nextT s \<Longrightarrow>
     escapeErr (heap (Parse_loop s t vs) r) = escapeErr (heap s r) \<and>
     nameSpace (heap (Parse_loop s t vs) r) = nameSpace (heap s r)"
proof (induction vs arbitrary: s)
  case Nil
  show ?case by simp
next
  case (Cons v vs)
  let ?s = "Parse_body s t v"
  from Cons.prems nextT_Parse_body[of s t v] have "t < nextT ?s" "r < nextT ?s" by simp_all
  from Cons.IH[OF ok_Parse_body[OF Cons.prems(1,2)] this] Parse_body_old[OF Cons.prems]
  show ?case by simp
qed

lemma Parse_old:
  assumes "store_ok s" "t < nextT s" "r < nextT s"
  shows "escapeErr (heap (snd (Parse s t txt ans)) r) = escapeErr (heap s r) \<and>
         nameSpace (heap (snd (Parse s t txt ans)) r) = nameSpace (heap s r)"
proof -
  have "store_ok (s\<lparr>eng := fst ans\<rparr>)" using assms(1) by (rule ok_eng)
  from Parse_loop_old[OF this, of t r] assms show ?thesis
    by (cases ans) (auto simp: Parse_def split: option.splits sum.splits)
qed

lemma AddParseTree_old:
  "r < nextT s \<Longrightarrow> heap (snd (AddParseTree s t nm tree ans)) r = heap s r"
  by (cases ans)
     (auto simp: AddParseTree_def alloc_def set_put_def Let_def split: option.splits sum.splits)

lemma Clone_body_old: "r < nextT s \<Longrightarrow> heap (snd (Clone_body s t ret x)) r = heap s r"
  by (auto simp: Clone_body_def alloc_def set_put_def Let_def split_def split: option.splits)

lemma Clone_loop_old: "r < nextT s \<Longrightarrow> heap (snd (Clone_loop s t ret xs)) r = heap s r"
proof (induction xs arbitrary: s)
  case Nil
  show ?case by simp
next
  case (Cons x xs)
  let ?s = "snd (Clone_body s t ret x)"
  from Cons.prems nextT_Clone_body[of s t ret x] have "r < nextT ?s" by simp
  from Cons.IH[OF this] Clone_body_old[OF Cons.prems, of t ret x]
  show ?case by (auto split: prod.splits option.splits)
qed

lemma Clone_old: assumes r: "r < nextT s" shows "heap (snd (Clone s t ans)) r = heap s r"
proof -
  have "heap (snd (Clone_loop (snd (Clone_start (s\<lparr>eng := fst ans\<rparr>) tc)) t (nextT s) xs)) r
          = heap s r" for tc xs
    using Clone_loop_old[of r "snd (Clone_start (s\<lparr>eng := fst ans\<rparr>) tc)" t "nextT s" xs] r
    by (simp add: Clone_start_fields)
  with Clone_state[of s t ans] show ?thesis by auto
qed

lemma escape_old:
  "escapeErr (heap s r) = Some e \<Longrightarrow> escapeErr (heap (snd (escape s t oc)) r) = Some e"
  by (auto simp: escape_def escapeTemplate_fields Let_def split: option.splits)

lemma Execute_old:
  "escapeErr (heap s r) = Some e \<Longrightarrow> escapeErr (heap (snd (Execute s t oc res)) r) = Some e"
  using escape_old[of s r e t oc]
  by (auto simp: Execute_def text_Execute_def split: option.splits prod.splits)

lemma lookupAndEscapeTemplate_old:
  "escapeErr (heap s r) = Some e \<Longrightarrow>
     escapeErr (heap (snd (lookupAndEscapeTemplate s t nm oc)) r) = Some e"
  by (auto simp: lookupAndEscapeTemplate_def escapeTemplate_fields Let_def split_def
      split: option.splits)

lemma ExecuteTemplate_old:
  "escapeErr (heap s r) = Some e \<Longrightarrow>
     escapeErr (heap (snd (ExecuteTemplate s t nm oc res)) r) = Some e"
  using lookupAndEscapeTemplate_old[of s r e t nm oc]
  by (auto simp: ExecuteTemplate_def text_Execute_def split: option.splits prod.splits)

section \<open>What \<open>Parse\<close> leaves in the registry\<close>

lemma Parse_body_eng:
  "eng (Parse_body s t v) =
     (case registry s t (text_name (texts (eng s) v)) of
        None \<Rightarrow> fst (text_Template_New (eng s) (textT (heap s t)) (text_name (texts (eng s) v)))
      | Some r \<Rightarrow> eng s)"
proof (cases "registry s t (text_name (texts (eng s) v))")
  case None
  then show ?thesis by (simp add: Parse_body_absent[OF None] Let_def new_fields_absent[OF None])
next
  case (Some r)
  then show ?thesis by (simp add: Parse_body_present[OF Some])
qed

lemma Parse_body_texts:
  "x < nextText (eng s) \<Longrightarrow> texts (eng (Parse_body s t v)) x = texts (eng s) x"
  "nextText (eng s) \<le> nextText (eng (Parse_body s t v))"
  by (auto simp: Parse_body_eng text_New_def text_Template_New_def split: option.splits)

lemma Parse_body_spaces:
  "spaces (Parse_body s t v) =
     (case registry s t (text_name (texts (eng s) v)) of
        None \<Rightarrow> (spaces s)(nameSpace (heap s t) := (spaces s (nameSpace (heap s t)))
                   \<lparr>set_ns := (set_ns (spaces s (nameSpace (heap s t))))
                                (text_name (texts (eng s) v) \<mapsto> nextT s)\<rparr>)
      | Some r \<Rightarrow> spaces s)"
proof (cases "registry s t (text_name (texts (eng s) v))")
  case None
  then show ?thesis by (simp add: Parse_body_absent[OF None] Let_def new_fields_absent[OF None])
next
  case (Some r)
  then show ?thesis by (simp add: Parse_body_present[OF Some])
qed

text \<open>One round: the entry of the name, and the Template it names.\<close>

lemma Parse_body_entry:
  assumes v: "v < nextText (eng s)"
  shows "\<exists>q. set_ns (spaces (Parse_body s t v) (nameSpace (heap s t)))
                (text_name (texts (eng s) v)) = Some q \<and>
             textT (heap (Parse_body s t v) q) = v \<and>
             Tree (heap (Parse_body s t v) q) = text_Tree (texts (eng s) v) \<and>
             (\<forall>r. registry s t (text_name (texts (eng s) v)) = Some r \<longrightarrow>
                  q = r \<and> escapeErr (heap (Parse_body s t v) q) = escapeErr (heap s r)) \<and>
             (registry s t (text_name (texts (eng s) v)) = None \<longrightarrow>
                  q = nextT s \<and> escapeErr (heap (Parse_body s t v) q) = None)"
proof (cases "registry s t (text_name (texts (eng s) v))")
  case None
  with v show ?thesis
    by (simp add: Parse_body_absent[OF None] Let_def new_fields_absent[OF None] text_New_def text_Template_New_def)
next
  case (Some r)
  then show ?thesis by (simp add: Parse_body_present[OF Some] registry_def)
qed

text \<open>One round leaves the entries of the other names, and the Templates they name.\<close>

lemma Parse_body_other:
  assumes w: "store_ok s" and k: "k \<noteq> text_name (texts (eng s) v)"
  shows "set_ns (spaces (Parse_body s t v) (nameSpace (heap s t))) k
           = set_ns (spaces s (nameSpace (heap s t))) k"
    and "set_ns (spaces s (nameSpace (heap s t))) k = Some q
           \<Longrightarrow> heap (Parse_body s t v) q = heap s q"
proof -
  show "set_ns (spaces (Parse_body s t v) (nameSpace (heap s t))) k
           = set_ns (spaces s (nameSpace (heap s t))) k"
    using k by (simp add: Parse_body_spaces split: option.splits)
  assume q: "set_ns (spaces s (nameSpace (heap s t))) k = Some q"
  show "heap (Parse_body s t v) q = heap s q"
  proof (cases "registry s t (text_name (texts (eng s) v))")
    case None
    from ok_reg[OF w q] have "q \<noteq> nextT s" by auto
    then show ?thesis
      by (simp add: Parse_body_absent[OF None] Let_def new_fields_absent[OF None])
  next
    case (Some r)
    then have "set_ns (spaces s (nameSpace (heap s t))) (text_name (texts (eng s) v)) = Some r"
      by (simp add: registry_def)
    from ok_inj[OF w this, of k] q k have "q \<noteq> r" by auto
    then show ?thesis by (simp add: Parse_body_present[OF Some])
  qed
qed

lemma Parse_loop_other:
  "store_ok s \<Longrightarrow> t < nextT s \<Longrightarrow> \<forall>x\<in>set vs. x < nextText (eng s) \<Longrightarrow>
   k \<notin> (\<lambda>x. text_name (texts (eng s) x)) ` set vs \<Longrightarrow>
   set_ns (spaces s (nameSpace (heap s t))) k = Some q \<Longrightarrow>
     set_ns (spaces (Parse_loop s t vs) (nameSpace (heap s t))) k = Some q \<and>
     heap (Parse_loop s t vs) q = heap s q"
proof (induction vs arbitrary: s)
  case Nil
  then show ?case by simp
next
  case (Cons v vs)
  let ?s = "Parse_body s t v"
  from Cons.prems have k: "k \<noteq> text_name (texts (eng s) v)" by auto
  have ns: "nameSpace (heap ?s t) = nameSpace (heap s t)"
    by (rule Parse_body_old(2)[OF Cons.prems(1,2,2)])
  have tx: "texts (eng ?s) x = texts (eng s) x" if "x \<in> set vs" for x
    using that Cons.prems(3) by (simp add: Parse_body_texts)
  have 1: "store_ok ?s" by (rule ok_Parse_body[OF Cons.prems(1,2)])
  have 2: "t < nextT ?s" using Cons.prems(2) nextT_Parse_body[of s t v] by simp
  have 3: "\<forall>x\<in>set vs. x < nextText (eng ?s)"
    using Cons.prems(3) Parse_body_texts(2)[of s t v] by auto
  have 4: "k \<notin> (\<lambda>x. text_name (texts (eng ?s) x)) ` set vs"
    using Cons.prems(4) tx by auto
  have 5: "set_ns (spaces ?s (nameSpace (heap ?s t))) k = Some q"
    using Parse_body_other(1)[OF Cons.prems(1) k, of t] Cons.prems(5) by (simp add: ns)
  from Cons.IH[OF 1 2 3 4 5] Parse_body_other(2)[OF Cons.prems(1) k Cons.prems(5)]
  show ?case by (simp add: ns)
qed

text \<open>
  After the loop, each text template of the list (the names being pairwise different) is
  the text of the Template registered under its name, which is the Template that was
  registered under the name before, if there was one.
\<close>

lemma Parse_loop_entry:
  "store_ok s \<Longrightarrow> t < nextT s \<Longrightarrow> \<forall>x\<in>set vs. x < nextText (eng s) \<Longrightarrow>
   distinct (map (\<lambda>x. text_name (texts (eng s) x)) vs) \<Longrightarrow> v \<in> set vs \<Longrightarrow>
   \<exists>q. set_ns (spaces (Parse_loop s t vs) (nameSpace (heap s t)))
          (text_name (texts (eng s) v)) = Some q \<and>
       textT (heap (Parse_loop s t vs) q) = v \<and>
       Tree (heap (Parse_loop s t vs) q) = text_Tree (texts (eng s) v) \<and>
       (\<forall>r. registry s t (text_name (texts (eng s) v)) = Some r \<longrightarrow>
            q = r \<and> escapeErr (heap (Parse_loop s t vs) q) = escapeErr (heap s r)) \<and>
       (registry s t (text_name (texts (eng s) v)) = None \<longrightarrow>
            nextT s \<le> q \<and> escapeErr (heap (Parse_loop s t vs) q) = None)"
proof (induction vs arbitrary: s)
  case Nil
  then show ?case by simp
next
  case (Cons x vs)
  let ?s = "Parse_body s t x"
  let ?n = "nameSpace (heap s t)"
  have ns: "nameSpace (heap ?s t) = ?n"
    by (rule Parse_body_old(2)[OF Cons.prems(1,2,2)])
  have tx: "texts (eng ?s) y = texts (eng s) y" if "y \<in> set vs" for y
    using that Cons.prems(3) by (simp add: Parse_body_texts)
  have 1: "store_ok ?s" by (rule ok_Parse_body[OF Cons.prems(1,2)])
  have 2: "t < nextT ?s" using Cons.prems(2) nextT_Parse_body[of s t x] by simp
  have 3: "\<forall>y\<in>set vs. y < nextText (eng ?s)"
    using Cons.prems(3) Parse_body_texts(2)[of s t x] by auto
  show ?case
  proof (cases "v = x")
    case True
    from Cons.prems(3) have "x < nextText (eng s)" by simp
    from Parse_body_entry[OF this, of t] obtain q where
      q: "set_ns (spaces ?s ?n) (text_name (texts (eng s) x)) = Some q \<and>
        textT (heap ?s q) = x \<and> Tree (heap ?s q) = text_Tree (texts (eng s) x) \<and>
        (\<forall>r. registry s t (text_name (texts (eng s) x)) = Some r \<longrightarrow>
              q = r \<and> escapeErr (heap ?s q) = escapeErr (heap s r)) \<and>
        (registry s t (text_name (texts (eng s) x)) = None \<longrightarrow>
              q = nextT s \<and> escapeErr (heap ?s q) = None)"
      by (rule exE)
    have 4: "text_name (texts (eng s) x) \<notin> (\<lambda>y. text_name (texts (eng ?s) y)) ` set vs"
      using Cons.prems(4) tx by auto
    from q have 5: "set_ns (spaces ?s (nameSpace (heap ?s t))) (text_name (texts (eng s) x)) = Some q"
      by (simp add: ns)
    from Parse_loop_other[OF 1 2 3 4 5] q True show ?thesis
      by (auto simp: ns)
  next
    case False
    with Cons.prems(5) have v: "v \<in> set vs" by simp
    from Cons.prems(4)
    have "text_name (texts (eng s) x) \<notin> (\<lambda>y. text_name (texts (eng s) y)) ` set vs"
      by simp
    moreover from v
    have "text_name (texts (eng s) v) \<in> (\<lambda>y. text_name (texts (eng s) y)) ` set vs"
      by (rule imageI)
    ultimately
    have ne: "text_name (texts (eng s) v) \<noteq> text_name (texts (eng s) x)"
      by metis
    have 4: "distinct (map (\<lambda>y. text_name (texts (eng ?s) y)) vs)"
      using Cons.prems(4) tx by (simp cong: map_cong)
    have nv: "text_name (texts (eng ?s) v) = text_name (texts (eng s) v)"
      "text_Tree (texts (eng ?s) v) = text_Tree (texts (eng s) v)"
      using tx[OF v] by simp_all
    have reg: "registry ?s t (text_name (texts (eng s) v)) = registry s t (text_name (texts (eng s) v))"
      using Parse_body_other(1)[OF Cons.prems(1) ne, of t] by (simp add: registry_def ns)
    from Cons.IH[OF 1 2 3 4 v] obtain q where
      q: "set_ns (spaces (Parse_loop ?s t vs) ?n) (text_name (texts (eng s) v)) = Some q \<and>
        textT (heap (Parse_loop ?s t vs) q) = v \<and>
        Tree (heap (Parse_loop ?s t vs) q) = text_Tree (texts (eng s) v) \<and>
        (\<forall>r. registry s t (text_name (texts (eng s) v)) = Some r \<longrightarrow>
              q = r \<and> escapeErr (heap (Parse_loop ?s t vs) q) = escapeErr (heap ?s r)) \<and>
        (registry s t (text_name (texts (eng s) v)) = None \<longrightarrow>
              nextT ?s \<le> q \<and> escapeErr (heap (Parse_loop ?s t vs) q) = None)"
      unfolding ns nv reg by (rule exE)
    have old: "escapeErr (heap ?s r) = escapeErr (heap s r)"
      if "registry s t (text_name (texts (eng s) v)) = Some r" for r
      using Parse_body_old(1)[OF Cons.prems(1,2), of r x] ok_registry[OF Cons.prems(1) that]
      by simp
    from q old nextT_Parse_body[of s t x] show ?thesis
      by (intro exI[of _ q]) auto
  qed
qed

section \<open>Results of the definition operations\<close>

lemma Template_New_result:
  assumes w: "store_ok s" and t: "t < nextT s"
  shows "fst (Template_New s t nm) = nextT s"
    and "set_ns (spaces (snd (Template_New s t nm)) (nameSpace (heap s t))) nm = Some (nextT s)"
    and "heap (snd (Template_New s t nm)) (nextT s) =
           \<lparr>escapeErr = None, textT = nextText (eng s), Tree = None,
            nameSpace = nameSpace (heap s t)\<rparr>"
    and "escaped (spaces (snd (Template_New s t nm)) (nameSpace (heap s t)))
           = escaped (spaces s (nameSpace (heap s t)))"
proof -
  have "fst (Template_New s t nm) = nextT s \<and>
        set_ns (spaces (snd (Template_New s t nm)) (nameSpace (heap s t))) nm = Some (nextT s) \<and>
        heap (snd (Template_New s t nm)) (nextT s) =
           \<lparr>escapeErr = None, textT = nextText (eng s), Tree = None,
            nameSpace = nameSpace (heap s t)\<rparr> \<and>
        escaped (spaces (snd (Template_New s t nm)) (nameSpace (heap s t)))
           = escaped (spaces s (nameSpace (heap s t)))"
  proof (cases "registry s t nm")
    case None
    then show ?thesis by (simp add: Template_New_def new_fields_absent)
  next
    case (Some ex)
    from ok_registry[OF w Some] ok_ns[OF w t]
    have ne: "ex \<noteq> nextT s" "nameSpace (heap s t) \<noteq> nextNs s" by auto
    note f = new_fields_present[OF Some ne]
    from ne show ?thesis by (simp add: Template_New_def f)
  qed
  then show "fst (Template_New s t nm) = nextT s"
    and "set_ns (spaces (snd (Template_New s t nm)) (nameSpace (heap s t))) nm = Some (nextT s)"
    and "heap (snd (Template_New s t nm)) (nextT s) =
           \<lparr>escapeErr = None, textT = nextText (eng s), Tree = None,
            nameSpace = nameSpace (heap s t)\<rparr>"
    and "escaped (spaces (snd (Template_New s t nm)) (nameSpace (heap s t)))
           = escaped (spaces s (nameSpace (heap s t)))"
    by simp_all
qed

lemma Template_New_nameSpace:
  assumes w: "store_ok s" and t: "t < nextT s" and r: "r < nextT s"
  shows "nameSpace (heap (snd (Template_New s t nm)) r) =
           (if registry s t nm = Some r then nextNs s else nameSpace (heap s r))"
  using new_old[OF w t r, of nm] new_displaced[OF w t, of nm r]
  by (simp add: Template_New_def)

lemma Parse_result:
  assumes w: "store_ok s" and t: "t < nextT s"
    and u: "\<not> escaped (spaces s (nameSpace (heap s t)))"
    and sane: "\<forall>x\<in>set vs. x < nextText e"
    and d: "distinct (map (\<lambda>x. text_name (texts e x)) vs)" and v: "v \<in> set vs"
  shows "fst (Parse s t txt (e, Inr vs)) = Inr t \<and>
     (\<exists>q. set_ns (spaces (snd (Parse s t txt (e, Inr vs))) (nameSpace (heap s t)))
            (text_name (texts e v)) = Some q \<and>
          textT (heap (snd (Parse s t txt (e, Inr vs))) q) = v \<and>
          Tree (heap (snd (Parse s t txt (e, Inr vs))) q) = text_Tree (texts e v) \<and>
          (\<forall>r. registry s t (text_name (texts e v)) = Some r \<longrightarrow>
             q = r \<and> escapeErr (heap (snd (Parse s t txt (e, Inr vs))) q) = escapeErr (heap s r)) \<and>
          (registry s t (text_name (texts e v)) = None \<longrightarrow>
             nextT s \<le> q \<and> escapeErr (heap (snd (Parse s t txt (e, Inr vs))) q) = None))"
proof -
  let ?s = "s\<lparr>eng := e\<rparr>"
  have p: "Parse s t txt (e, Inr vs) = (Inr t, Parse_loop ?s t vs)"
    using u by (simp add: Parse_def checkCanParse_def)
  have 1: "store_ok ?s" using w by (rule ok_eng)
  have 2: "t < nextT ?s" using t by simp
  have 3: "\<forall>x\<in>set vs. x < nextText (eng ?s)" using sane by simp
  have 4: "distinct (map (\<lambda>x. text_name (texts (eng ?s) x)) vs)" using d by simp
  from Parse_loop_entry[OF 1 2 3 4 v] show ?thesis
    unfolding p by (simp add: registry_def)
qed

section \<open>Clone\<close>

lemma Clone_body_eng:
  "eng (snd (Clone_body s t ret x)) =
     (if Clone_body_ok s t x
      then (fst (Tree_Copy (eng s) (text_Tree (texts (eng s) x))))
             \<lparr>texts := (texts (eng s))(x := (texts (eng s) x)
                \<lparr>text_Tree := snd (Tree_Copy (eng s) (text_Tree (texts (eng s) x)))\<rparr>)\<rparr>
      else eng s)"
  by (auto simp: Clone_body_def Clone_body_ok_def alloc_def set_put_def Tree_Copy_def Let_def
      split_def split: option.splits)

lemma Clone_body_names:
  "text_name (texts (eng (snd (Clone_body s t ret x))) y) = text_name (texts (eng s) y)"
  by (simp add: Clone_body_eng)

lemma Clone_body_spaces:
  assumes "ret < nextT s" "ns \<noteq> nameSpace (heap s ret)"
  shows "spaces (snd (Clone_body s t ret x)) ns = spaces s ns"
proof (cases "Clone_body_ok s t x")
  case True
  from assms have "ret \<noteq> nextT s" by simp
  from Clone_body_fields(3)[OF True this] assms(2) show ?thesis by simp
next
  case False
  then show ?thesis by (simp add: Clone_body_error)
qed

lemma Clone_loop_spaces:
  "ret < nextT s \<Longrightarrow> ns \<noteq> nameSpace (heap s ret) \<Longrightarrow>
     spaces (snd (Clone_loop s t ret xs)) ns = spaces s ns"
proof (induction xs arbitrary: s)
  case Nil
  show ?case by simp
next
  case (Cons x xs)
  let ?s = "snd (Clone_body s t ret x)"
  from Cons.prems nextT_Clone_body[of s t ret x] have 1: "ret < nextT ?s" by simp
  from Cons.prems Clone_body_old[of ret s t ret x]
  have 2: "ns \<noteq> nameSpace (heap ?s ret)" by simp
  from Cons.IH[OF 1 2] Clone_body_spaces[OF Cons.prems, of t x]
  show ?case by (auto split: prod.splits option.splits)
qed

lemma Clone_loop_Cons:
  "Clone_loop s t ret (x # xs) =
     (case fst (Clone_body s t ret x) of
        Some err \<Rightarrow> (Some err, snd (Clone_body s t ret x))
      | None \<Rightarrow> Clone_loop (snd (Clone_body s t ret x)) t ret xs)"
  by (simp split: prod.splits option.splits)

text \<open>
  The loop returns the error as soon as it meets the name of a Template of the source
  that holds an outcome, if it has not returned it before.
\<close>

lemma Clone_loop_fails:
  "store_ok s \<Longrightarrow> t < nextT s \<Longrightarrow> ret < nextT s \<Longrightarrow>
   nameSpace (heap s ret) \<noteq> nameSpace (heap s t) \<Longrightarrow>
   registry s t nm = Some r \<Longrightarrow> escapeErr (heap s r) \<noteq> None \<Longrightarrow>
   nm \<in> (\<lambda>x. text_name (texts (eng s) x)) ` set xs \<Longrightarrow>
     fst (Clone_loop s t ret xs) = Some (CloneAfterExecution (Name s t))"
proof (induction xs arbitrary: s)
  case Nil
  then show ?case by simp
next
  case (Cons x xs)
  show ?case
  proof (cases "Clone_body_ok s t x")
    case False
    then show ?thesis by (simp add: Clone_body_error)
  next
    case True
    let ?s = "snd (Clone_body s t ret x)"
    from Cons.prems(3) have ne: "ret \<noteq> nextT s" by simp
    note f = Clone_body_fields[OF True ne]
    from True Cons.prems(5,6) have "text_name (texts (eng s) x) \<noteq> nm"
      by (auto simp: Clone_body_ok_def split: option.splits)
    with Cons.prems(7) have 7: "nm \<in> (\<lambda>y. text_name (texts (eng ?s) y)) ` set xs"
      by (auto simp: Clone_body_names)
    from ok_registry[OF Cons.prems(1,5)] have r: "r < nextT s" by simp
    have 1: "store_ok ?s" by (rule ok_Clone_body[OF Cons.prems(1,3)])
    have 2: "t < nextT ?s" "ret < nextT ?s" using Cons.prems(2,3) by (simp_all add: f)
    have h: "heap ?s t = heap s t" "heap ?s ret = heap s ret" "heap ?s r = heap s r"
      using Cons.prems(2,3) r by (simp_all add: Clone_body_old)
    have 4: "nameSpace (heap ?s ret) \<noteq> nameSpace (heap ?s t)"
      using Cons.prems(4) by (simp add: h)
    have 5: "registry ?s t nm = Some r"
      using Cons.prems(4,5) Clone_body_spaces[OF Cons.prems(3), of "nameSpace (heap s t)" t x]
      by (simp add: registry_def h)
    have 6: "escapeErr (heap ?s r) \<noteq> None" using Cons.prems(6) by (simp add: h)
    have n: "Name ?s t = Name s t" by (simp add: Name_def h Clone_body_names)
    from Cons.IH[OF 1 2 4 5 6 7] show ?thesis
      unfolding Clone_loop_Cons by (simp add: n f(1))
  qed
qed

lemma Clone_fails:
  assumes w: "store_ok s" and t: "t < nextT s"
    and reg: "registry s t nm = Some r" and e: "escapeErr (heap s r) \<noteq> None"
    and nm: "nm \<in> (\<lambda>x. text_name (texts e' x)) ` set xs"
    and u: "escapeErr (heap s t) = None"
  shows "fst (Clone s t (e', Inr (tc, xs))) = Inl (CloneAfterExecution (Name (s\<lparr>eng := e'\<rparr>) t))"
proof -
  let ?s0 = "s\<lparr>eng := e'\<rparr>"
  let ?s1 = "snd (Clone_start ?s0 tc)"
  note f = Clone_start_fields[of ?s0 tc]
  from ok_registry[OF w reg] have r: "r < nextT s" by simp
  have 1: "store_ok ?s1" by (rule ok_Clone_start[OF ok_eng[OF w]])
  have 2: "t < nextT ?s1" "nextT s < nextT ?s1" using t by (simp_all add: f)
  have 4: "nameSpace (heap ?s1 (nextT s)) \<noteq> nameSpace (heap ?s1 t)"
    using t ok_ns[OF w t] by (simp add: f)
  have 5: "registry ?s1 t nm = Some r"
    using t ok_ns[OF w t] reg by (simp add: registry_def f)
  have 6: "escapeErr (heap ?s1 r) \<noteq> None" using e r by (simp add: f)
  have 7: "nm \<in> (\<lambda>x. text_name (texts (eng ?s1) x)) ` set xs" using nm by (simp add: f)
  have n: "Name ?s1 t = Name ?s0 t" using t by (simp add: Name_def f)
  from Clone_loop_fails[OF 1 2 4 5 6 7] show ?thesis
    unfolding Clone_unfold[OF u] by (simp add: Let_def n)
qed

lemma Clone_spaces_old:
  assumes ns: "ns < nextNs s"
  shows "spaces (snd (Clone s t ans)) ns = spaces s ns"
proof -
  have "spaces (snd (Clone_loop (snd (Clone_start (s\<lparr>eng := fst ans\<rparr>) tc)) t (nextT s) xs)) ns
          = spaces s ns" for tc xs
    using Clone_loop_spaces[of "nextT s" "snd (Clone_start (s\<lparr>eng := fst ans\<rparr>) tc)" ns t xs] ns
    by (simp add: Clone_start_fields)
  with Clone_state[of s t ans] show ?thesis by auto
qed

subsection \<open>The registry a successful \<open>Clone\<close> builds\<close>

lemma Tree_Copy_facts:
  "snd (Tree_Copy e tr) = (case tr of None \<Rightarrow> None | Some a \<Rightarrow> Some (nextTree e))"
  "nextTree e \<le> nextTree (fst (Tree_Copy e tr))"
  "snd (Tree_Copy e tr) = Some c \<Longrightarrow> c = nextTree e \<and> nextTree (fst (Tree_Copy e tr)) = Suc c"
  "y < nextTree e \<Longrightarrow> trees (fst (Tree_Copy e tr)) y = trees e y"
  "texts (fst (Tree_Copy e tr)) = texts e"
  by (auto simp: Tree_Copy_def split: option.splits)

lemma Clone_body_trees:
  "nextTree (eng s) \<le> nextTree (eng (snd (Clone_body s t ret x)))"
  "y < nextTree (eng s) \<Longrightarrow> trees (eng (snd (Clone_body s t ret x))) y = trees (eng s) y"
  "y \<noteq> x \<Longrightarrow> texts (eng (snd (Clone_body s t ret x))) y = texts (eng s) y"
  by (simp_all add: Clone_body_eng Tree_Copy_facts)

lemma clone_okD:
  assumes "clone_ok s ret T0" "set_ns (spaces s (nameSpace (heap s ret))) k = Some q"
  shows "Name s q = k" "ret \<le> q" "q < nextT s" "escapeErr (heap s q) = None"
    "nameSpace (heap s q) = nameSpace (heap s ret)"
    "q \<noteq> ret \<Longrightarrow> Tree (heap s q) = Some tr \<Longrightarrow> T0 \<le> tr \<and> tr < nextTree (eng s)"
  using assms unfolding clone_ok_def by (auto split: option.splits)

lemma clone_ok_body:
  assumes c: "clone_ok s ret T0" and r: "ret < nextT s" and T: "T0 \<le> nextTree (eng s)"
    and ok: "Clone_body_ok s t x"
  shows "clone_ok (snd (Clone_body s t ret x)) ret T0"
proof -
  let ?s = "snd (Clone_body s t ret x)"
  let ?n = "nameSpace (heap s ret)"
  let ?k = "text_name (texts (eng s) x)"
  let ?cp = "snd (Tree_Copy (eng s) (text_Tree (texts (eng s) x)))"
  from r have ne: "ret \<noteq> nextT s" by simp
  note f = Clone_body_fields[OF ok ne]
  have hr: "heap ?s ret = heap s ret" using r by (simp add: Clone_body_old)
  have nm: "Name ?s q = Name s q" if "q < nextT s" for q
    using that by (simp add: Name_def Clone_body_names Clone_body_old)
  have "Name ?s q = k \<and> ret \<le> q \<and> q < nextT ?s \<and> escapeErr (heap ?s q) = None \<and>
        nameSpace (heap ?s q) = ?n \<and>
        (q \<noteq> ret \<longrightarrow> (case Tree (heap ?s q) of None \<Rightarrow> True
                        | Some tr \<Rightarrow> T0 \<le> tr \<and> tr < nextTree (eng ?s)))"
    if a: "set_ns (spaces ?s ?n) k = Some q" for k q
  proof (cases "k = ?k")
    case True
    with a have q: "q = nextT s" by (simp add: f)
    have 1: "Name ?s q = k" unfolding q True by (simp add: Name_def f Clone_body_names)
    have 2: "case Tree (heap ?s q) of None \<Rightarrow> True
               | Some tr \<Rightarrow> T0 \<le> tr \<and> tr < nextTree (eng ?s)"
    proof (cases ?cp)
      case None
      then show ?thesis unfolding q by (simp add: f)
    next
      case (Some c)
      from Tree_Copy_facts(3)[OF Some] T show ?thesis
        unfolding q by (simp add: f Some Clone_body_eng ok)
    qed
    from 1 2 r show ?thesis unfolding q by (simp add: f)
  next
    case False
    with a have old: "set_ns (spaces s ?n) k = Some q" by (simp add: f)
    note d = clone_okD[OF c old]
    from d(3) have h: "heap ?s q = heap s q" by (simp add: Clone_body_old)
    have "case Tree (heap s q) of None \<Rightarrow> True
            | Some tr \<Rightarrow> T0 \<le> tr \<and> tr < nextTree (eng ?s)" if "q \<noteq> ret"
      using d(6)[OF that] Clone_body_trees(1)[of s t ret x]
      by (auto split: option.splits)
    with d nm[OF d(3)] show ?thesis by (simp add: h f)
  qed
  then show ?thesis unfolding clone_ok_def hr by blast
qed

text \<open>
  Along a loop that returns no error: the invariant, the keys, the flag, the trees and
  the text templates outside the list stay, and \<open>ret\<close> leaves the registry for good when
  its name comes up.
\<close>

lemma Clone_loop_builds:
  "clone_ok s ret T0 \<Longrightarrow> ret < nextT s \<Longrightarrow> T0 \<le> nextTree (eng s) \<Longrightarrow>
   fst (Clone_loop s t ret xs) = None \<Longrightarrow>
     clone_ok (snd (Clone_loop s t ret xs)) ret T0 \<and>
     (set_ns (spaces s (nameSpace (heap s ret))) k \<noteq> None \<longrightarrow>
        set_ns (spaces (snd (Clone_loop s t ret xs)) (nameSpace (heap s ret))) k \<noteq> None) \<and>
     escaped (spaces (snd (Clone_loop s t ret xs)) (nameSpace (heap s ret)))
       = escaped (spaces s (nameSpace (heap s ret))) \<and>
     ((\<forall>k. set_ns (spaces s (nameSpace (heap s ret))) k \<noteq> Some ret) \<or>
      Name s ret \<in> (\<lambda>x. text_name (texts (eng s) x)) ` set xs \<longrightarrow>
        (\<forall>k. set_ns (spaces (snd (Clone_loop s t ret xs)) (nameSpace (heap s ret))) k \<noteq> Some ret)) \<and>
     (\<forall>y. y < nextTree (eng s) \<longrightarrow> trees (eng (snd (Clone_loop s t ret xs))) y = trees (eng s) y) \<and>
     (\<forall>y. y \<notin> set xs \<longrightarrow> texts (eng (snd (Clone_loop s t ret xs))) y = texts (eng s) y) \<and>
     (\<forall>y. text_name (texts (eng (snd (Clone_loop s t ret xs))) y) = text_name (texts (eng s) y))"
proof (induction xs arbitrary: s)
  case Nil
  then show ?case by simp
next
  case (Cons x xs)
  let ?s = "snd (Clone_body s t ret x)"
  let ?n = "nameSpace (heap s ret)"
  let ?k = "text_name (texts (eng s) x)"
  have ok: "Clone_body_ok s t x"
  proof (rule ccontr)
    assume "\<not> Clone_body_ok s t x"
    with Cons.prems(4) show False unfolding Clone_loop_Cons by (simp add: Clone_body_error)
  qed
  from Cons.prems(2) have ne: "ret \<noteq> nextT s" by simp
  note f = Clone_body_fields[OF ok ne]
  have l: "Clone_loop s t ret (x # xs) = Clone_loop ?s t ret xs"
    unfolding Clone_loop_Cons by (simp add: f)
  have hr: "heap ?s ret = heap s ret" using Cons.prems(2) by (simp add: Clone_body_old)
  have 1: "clone_ok ?s ret T0" by (rule clone_ok_body[OF Cons.prems(1,2,3) ok])
  have 2: "ret < nextT ?s" using Cons.prems(2) by (simp add: f)
  have 3: "T0 \<le> nextTree (eng ?s)"
    using Cons.prems(3) Clone_body_trees(1)[of s t ret x] by simp
  have 4: "fst (Clone_loop ?s t ret xs) = None" using Cons.prems(4) by (simp only: l)
  note IH = Cons.IH[OF 1 2 3 4, unfolded hr]
  have nr: "Name ?s ret = Name s ret" by (simp add: Name_def hr Clone_body_names)
  have names: "(\<lambda>y. text_name (texts (eng ?s) y)) = (\<lambda>y. text_name (texts (eng s) y))"
    by (simp add: fun_eq_iff Clone_body_names)
  have keys: "set_ns (spaces s ?n) k \<noteq> None \<longrightarrow> set_ns (spaces ?s ?n) k \<noteq> None"
    by (simp add: f)
  have gone: "\<forall>k. set_ns (spaces ?s ?n) k \<noteq> Some ret"
    if "(\<forall>k. set_ns (spaces s ?n) k \<noteq> Some ret) \<or> Name s ret = ?k"
  proof (intro allI notI)
    fix k assume a: "set_ns (spaces ?s ?n) k = Some ret"
    with ne have k: "k \<noteq> ?k" and old: "set_ns (spaces s ?n) k = Some ret"
      by (auto simp: f split: if_splits)
    from clone_okD(1)[OF Cons.prems(1) old] k that old show False by auto
  qed
  have tr: "trees (eng (snd (Clone_loop ?s t ret xs))) y = trees (eng s) y"
    if "y < nextTree (eng s)" for y
    using IH that Clone_body_trees(1)[of s t ret x]
      Clone_body_trees(2)[where s = s and t = t and ret = ret and x = x and y = y]
    by (simp add: less_le_trans)
  have tx: "texts (eng (snd (Clone_loop ?s t ret xs))) y = texts (eng s) y"
    if "y \<notin> set (x # xs)" for y
    using IH that Clone_body_trees(3)[where y = y and x = x and s = s and t = t and ret = ret] by simp
  have g: "\<forall>k. set_ns (spaces (snd (Clone_loop ?s t ret xs)) ?n) k \<noteq> Some ret"
    if h: "(\<forall>k. set_ns (spaces s ?n) k \<noteq> Some ret) \<or>
           Name s ret \<in> (\<lambda>x. text_name (texts (eng s) x)) ` set (x # xs)"
  proof (cases "(\<forall>k. set_ns (spaces s ?n) k \<noteq> Some ret) \<or> Name s ret = ?k")
    case True
    from gone[OF True] IH show ?thesis by blast
  next
    case False
    with h have "Name ?s ret \<in> (\<lambda>x. text_name (texts (eng ?s) x)) ` set xs"
      unfolding nr names by auto
    with IH show ?thesis by blast
  qed
  have e: "escaped (spaces ?s ?n) = escaped (spaces s ?n)" by (simp add: f)
  from IH keys g tr tx show ?case
    unfolding l by (simp add: e Clone_body_names del: Clone_loop.simps)
qed

section \<open>The registry and the engine stay in step\<close>

lemma syncI:
  assumes "engine_ok (eng s)"
    and "\<And>r. r < nextT s \<Longrightarrow> textT (heap s r) < nextText (eng s)"
    and "\<And>r q. r < nextT s \<Longrightarrow> q < nextT s \<Longrightarrow> nameSpace (heap s r) = nameSpace (heap s q)
           \<Longrightarrow> text_common (texts (eng s) (textT (heap s r)))
                 = text_common (texts (eng s) (textT (heap s q)))"
    and "\<And>ns k r. set_ns (spaces s ns) k = Some r \<Longrightarrow> Name s r = k"
    and "\<And>r m. r < nextT s \<Longrightarrow> escapeErr (heap s r) \<noteq> Some (Panic m)"
    and "\<And>ns k r. set_ns (spaces s ns) k = Some r \<Longrightarrow> escapeErr (heap s r) \<noteq> None
           \<Longrightarrow> text_Lookup (eng s) (textT (heap s r)) k \<noteq> None"
  shows "sync_ok s"
  using assms unfolding sync_ok_def by blast

lemma sync_eng: "sync_ok s \<Longrightarrow> engine_ok (eng s)"
  unfolding sync_ok_def by blast

lemma sync_text: "sync_ok s \<Longrightarrow> r < nextT s \<Longrightarrow> textT (heap s r) < nextText (eng s)"
  unfolding sync_ok_def by blast

lemma sync_common:
  "sync_ok s \<Longrightarrow> r < nextT s \<Longrightarrow> q < nextT s \<Longrightarrow> nameSpace (heap s r) = nameSpace (heap s q)
     \<Longrightarrow> text_common (texts (eng s) (textT (heap s r)))
           = text_common (texts (eng s) (textT (heap s q)))"
  unfolding sync_ok_def by blast

lemma sync_name: "sync_ok s \<Longrightarrow> set_ns (spaces s ns) k = Some r \<Longrightarrow> Name s r = k"
  unfolding sync_ok_def by blast

lemma sync_err: "sync_ok s \<Longrightarrow> r < nextT s \<Longrightarrow> escapeErr (heap s r) \<noteq> Some (Panic m)"
  unfolding sync_ok_def by blast

lemma sync_out:
  "sync_ok s \<Longrightarrow> set_ns (spaces s ns) k = Some r \<Longrightarrow> escapeErr (heap s r) \<noteq> None
     \<Longrightarrow> text_Lookup (eng s) (textT (heap s r)) k \<noteq> None"
  unfolding sync_ok_def by blast

lemma sync_init: "sync_ok init_state"
  by (simp add: sync_ok_def init_state_def init_engine_def engine_ok_def)

lemma extends_refl: "engine_extends e e"
  by (simp add: engine_extends_def)

lemma extends_trans:
  "engine_extends e e' \<Longrightarrow> engine_extends e' e'' \<Longrightarrow> engine_extends e e''"
  unfolding engine_extends_def
  by (metis (no_types, lifting) le_trans less_le_trans)

lemma extends_name:
  "engine_extends e e' \<Longrightarrow> tx < nextText e \<Longrightarrow> text_name (texts e' tx) = text_name (texts e tx)"
  unfolding engine_extends_def by blast

lemma extends_common:
  "engine_extends e e' \<Longrightarrow> tx < nextText e
     \<Longrightarrow> text_common (texts e' tx) = text_common (texts e tx)"
  unfolding engine_extends_def by blast

lemma extends_next: "engine_extends e e' \<Longrightarrow> nextText e \<le> nextText e'"
  unfolding engine_extends_def by blast

lemma extends_associated:
  "engine_extends e e' \<Longrightarrow> c < nextCommon e \<Longrightarrow> associated e c k \<noteq> None
     \<Longrightarrow> associated e' c k \<noteq> None"
  unfolding engine_extends_def by blast

lemma engine_ok_common:
  "engine_ok e \<Longrightarrow> tx < nextText e \<Longrightarrow> text_common (texts e tx) < nextCommon e"
  unfolding engine_ok_def by blast

lemma engine_ok_defined:
  "engine_ok e \<Longrightarrow> tx < nextText e \<Longrightarrow> text_Tree (texts e tx) \<noteq> None
     \<Longrightarrow> text_Lookup e tx (text_name (texts e tx)) \<noteq> None"
  unfolding engine_ok_def text_Lookup_def by blast

lemma text_New_engine:
  assumes "engine_ok e"
  shows "engine_ok (fst (text_New e nm))" "engine_extends e (fst (text_New e nm))"
  using assms
  by (auto simp: engine_ok_def engine_extends_def text_New_def less_Suc_eq)

lemma text_Template_New_engine:
  assumes "engine_ok e" "tx < nextText e"
  shows "engine_ok (fst (text_Template_New e tx nm))"
    "engine_extends e (fst (text_Template_New e tx nm))"
  using assms
  by (auto simp: engine_ok_def engine_extends_def text_Template_New_def less_Suc_eq)

text \<open>What a later state of the engine keeps of the text of an allocated Template.\<close>

lemma sync_old:
  assumes y: "sync_ok s" and e: "engine_extends (eng s) e'" and r: "r < nextT s"
  shows "textT (heap s r) < nextText e'"
    "text_name (texts e' (textT (heap s r))) = Name s r"
    "text_common (texts e' (textT (heap s r))) = text_common (texts (eng s) (textT (heap s r)))"
proof -
  from sync_text[OF y r] have a: "textT (heap s r) < nextText (eng s)" .
  with extends_next[OF e] show "textT (heap s r) < nextText e'" by simp
  from extends_name[OF e a] show "text_name (texts e' (textT (heap s r))) = Name s r"
    by (simp add: Name_def)
  from extends_common[OF e a]
  show "text_common (texts e' (textT (heap s r))) = text_common (texts (eng s) (textT (heap s r)))" .
qed

lemma sync_out_old:
  assumes y: "sync_ok s" and w: "store_ok s" and e: "engine_extends (eng s) e'"
    and a: "set_ns (spaces s ns) k = Some r" and b: "escapeErr (heap s r) \<noteq> None"
  shows "text_Lookup e' (textT (heap s r)) k \<noteq> None"
proof -
  from ok_reg[OF w a] have r: "r < nextT s" by simp
  note tx = sync_text[OF y r]
  note c = engine_ok_common[OF sync_eng[OF y] tx]
  from sync_out[OF y a b]
  have "associated (eng s) (text_common (texts (eng s) (textT (heap s r)))) k \<noteq> None"
    by (simp add: text_Lookup_def)
  from extends_associated[OF e c this] extends_common[OF e tx] show ?thesis
    by (simp add: text_Lookup_def)
qed

text \<open>A step of the engine alone.\<close>

lemma sync_engine:
  assumes y: "sync_ok s" and w: "store_ok s"
    and h: "heap s' = heap s" and sp: "\<And>ns. set_ns (spaces s' ns) = set_ns (spaces s ns)"
    and c: "nextT s' = nextT s"
    and e: "engine_ok (eng s')" "engine_extends (eng s) (eng s')"
  shows "sync_ok s'"
proof (rule syncI)
  show "engine_ok (eng s')" by (rule e)
  show "textT (heap s' r) < nextText (eng s')" if "r < nextT s'" for r
    using that sync_old(1)[OF y e(2), of r] by (simp add: h c)
  show "text_common (texts (eng s') (textT (heap s' r)))
          = text_common (texts (eng s') (textT (heap s' q)))"
    if "r < nextT s'" "q < nextT s'" "nameSpace (heap s' r) = nameSpace (heap s' q)" for r q
    using that sync_old(3)[OF y e(2), of r] sync_old(3)[OF y e(2), of q] sync_common[OF y, of r q]
    by (simp add: h c)
  show "Name s' r = k" if "set_ns (spaces s' ns) k = Some r" for ns k r
  proof -
    from that have a: "set_ns (spaces s ns) k = Some r" by (simp add: sp)
    from ok_reg[OF w a] have "r < nextT s" by simp
    from sync_old(2)[OF y e(2) this] sync_name[OF y a] show ?thesis by (simp add: Name_def h)
  qed
  show "escapeErr (heap s' r) \<noteq> Some (Panic m)" if "r < nextT s'" for r m
    using that sync_err[OF y, of r m] by (simp add: h c)
  show "text_Lookup (eng s') (textT (heap s' r)) k \<noteq> None"
    if "set_ns (spaces s' ns) k = Some r" "escapeErr (heap s' r) \<noteq> None" for ns k r
    using that sync_out_old[OF y w e(2), of ns k r] by (simp add: h sp)
qed

lemma sync_eng_upd:
  "sync_ok s \<Longrightarrow> store_ok s \<Longrightarrow> engine_ok e \<Longrightarrow> engine_extends (eng s) e
     \<Longrightarrow> sync_ok (s\<lparr>eng := e\<rparr>)"
  by (erule sync_engine) simp_all

text \<open>A new name space with one new Template in it.\<close>

lemma sync_new_space:
  assumes y: "sync_ok s" and w: "store_ok s"
    and h: "heap s' = (heap s)(nextT s := tm)" and n: "nameSpace tm = nextNs s"
    and sp: "spaces s' = (spaces s)(nextNs s := \<lparr>set_ns = [nm \<mapsto> nextT s], escaped = b\<rparr>)"
    and c: "nextT s' = Suc (nextT s)"
    and e: "engine_ok (eng s')" "engine_extends (eng s) (eng s')"
    and tm: "escapeErr tm = None" "textT tm < nextText (eng s')"
      "text_name (texts (eng s') (textT tm)) = nm"
  shows "sync_ok s'"
proof (rule syncI)
  show "engine_ok (eng s')" by (rule e)
  show "textT (heap s' r) < nextText (eng s')" if "r < nextT s'" for r
    using that sync_old(1)[OF y e(2), of r] tm by (auto simp: h c less_Suc_eq)
  show "text_common (texts (eng s') (textT (heap s' r)))
          = text_common (texts (eng s') (textT (heap s' q)))"
    if a: "r < nextT s'" "q < nextT s'" "nameSpace (heap s' r) = nameSpace (heap s' q)" for r q
  proof (cases "r = nextT s \<or> q = nextT s")
    case True
    have "r = q"
    proof (rule ccontr)
      assume ne: "r \<noteq> q"
      from True show False
      proof
        assume r: "r = nextT s"
        with ne a have "q < nextT s" by (simp add: c)
        from ok_ns[OF w this] a(3) r ne show False by (simp add: h n)
      next
        assume q: "q = nextT s"
        with ne a have "r < nextT s" by (simp add: c)
        from ok_ns[OF w this] a(3) q ne show False by (simp add: h n)
      qed
    qed
    then show ?thesis by simp
  next
    case False
    with a have b: "r < nextT s" "q < nextT s" "nameSpace (heap s r) = nameSpace (heap s q)"
      by (auto simp: h c)
    from sync_old(3)[OF y e(2) b(1)] sync_old(3)[OF y e(2) b(2)] sync_common[OF y b] False
    show ?thesis by (simp add: h)
  qed
  show "Name s' r = k" if a: "set_ns (spaces s' ns) k = Some r" for ns k r
  proof (cases "ns = nextNs s")
    case True
    with a have "k = nm" "r = nextT s" by (auto simp: sp split: if_splits)
    with tm show ?thesis by (simp add: Name_def h)
  next
    case False
    with a have b: "set_ns (spaces s ns) k = Some r" by (simp add: sp)
    from ok_reg[OF w b] have r: "r < nextT s" by simp
    from sync_old(2)[OF y e(2) r] sync_name[OF y b] r show ?thesis by (simp add: Name_def h)
  qed
  show "escapeErr (heap s' r) \<noteq> Some (Panic m)" if "r < nextT s'" for r m
    using that sync_err[OF y, of r m] tm by (auto simp: h c less_Suc_eq)
  show "text_Lookup (eng s') (textT (heap s' r)) k \<noteq> None"
    if a: "set_ns (spaces s' ns) k = Some r" and b: "escapeErr (heap s' r) \<noteq> None" for ns k r
  proof (cases "ns = nextNs s")
    case True
    with a have "r = nextT s" by (auto simp: sp split: if_splits)
    with b tm(1) show ?thesis by (simp add: h)
  next
    case False
    with a have a': "set_ns (spaces s ns) k = Some r" by (simp add: sp)
    from ok_reg[OF w a'] have r: "r \<noteq> nextT s" by auto
    with b have "escapeErr (heap s r) \<noteq> None" by (simp add: h)
    from sync_out_old[OF y w e(2) a' this] r show ?thesis by (simp add: h)
  qed
qed

text \<open>A new Template registered in an existing name space.\<close>

lemma sync_alloc_put:
  assumes y: "sync_ok s" and w: "store_ok s"
    and h: "heap s' = (heap s)(nextT s := tm)" and n: "nameSpace tm = nsp"
    and sp: "spaces s' = (spaces s)(nsp := (spaces s nsp)
               \<lparr>set_ns := (set_ns (spaces s nsp))(nm \<mapsto> nextT s)\<rparr>)"
    and c: "nextT s' = Suc (nextT s)"
    and e: "engine_ok (eng s')" "engine_extends (eng s) (eng s')"
    and tm: "escapeErr tm = None" "textT tm < nextText (eng s')"
      "text_name (texts (eng s') (textT tm)) = nm"
    and cm: "\<And>q. q < nextT s \<Longrightarrow> nameSpace (heap s q) = nsp \<Longrightarrow>
               text_common (texts (eng s') (textT tm))
                 = text_common (texts (eng s) (textT (heap s q)))"
  shows "sync_ok s'"
proof (rule syncI)
  show "engine_ok (eng s')" by (rule e)
  show "textT (heap s' r) < nextText (eng s')" if "r < nextT s'" for r
    using that sync_old(1)[OF y e(2), of r] tm by (auto simp: h c less_Suc_eq)
  have old: "text_common (texts (eng s') (textT (heap s' r)))
               = text_common (texts (eng s) (textT (heap s r)))" if "r < nextT s" for r
    using that sync_old(3)[OF y e(2) that] by (simp add: h)
  show "text_common (texts (eng s') (textT (heap s' r)))
          = text_common (texts (eng s') (textT (heap s' q)))"
    if a: "r < nextT s'" "q < nextT s'" "nameSpace (heap s' r) = nameSpace (heap s' q)" for r q
  proof (cases "r = nextT s")
    case r: True
    show ?thesis
    proof (cases "q = nextT s")
      case True
      with r show ?thesis by simp
    next
      case False
      with a have q: "q < nextT s" by (simp add: c)
      with a(3) r have "nameSpace (heap s q) = nsp" by (simp add: h n)
      from cm[OF q this] old[OF q] r show ?thesis by (simp add: h)
    qed
  next
    case nr: False
    with a have r: "r < nextT s" by (simp add: c)
    show ?thesis
    proof (cases "q = nextT s")
      case True
      with a(3) r have "nameSpace (heap s r) = nsp" by (simp add: h n)
      from cm[OF r this] old[OF r] True show ?thesis by (simp add: h)
    next
      case False
      with a have q: "q < nextT s" by (simp add: c)
      from a(3) r q have "nameSpace (heap s r) = nameSpace (heap s q)" by (simp add: h)
      from sync_common[OF y r q this] old[OF r] old[OF q] show ?thesis by simp
    qed
  qed
  show "Name s' r = k" if a: "set_ns (spaces s' ns) k = Some r" for ns k r
  proof (cases "ns = nsp \<and> k = nm")
    case True
    with a have "r = nextT s" by (simp add: sp)
    with tm True show ?thesis by (simp add: Name_def h)
  next
    case False
    with a have b: "set_ns (spaces s ns) k = Some r" by (auto simp: sp split: if_splits)
    from ok_reg[OF w b] have r: "r < nextT s" by simp
    from sync_old(2)[OF y e(2) r] sync_name[OF y b] r show ?thesis by (simp add: Name_def h)
  qed
  show "escapeErr (heap s' r) \<noteq> Some (Panic m)" if "r < nextT s'" for r m
    using that sync_err[OF y, of r m] tm by (auto simp: h c less_Suc_eq)
  show "text_Lookup (eng s') (textT (heap s' r)) k \<noteq> None"
    if a: "set_ns (spaces s' ns) k = Some r" and b: "escapeErr (heap s' r) \<noteq> None" for ns k r
  proof (cases "ns = nsp \<and> k = nm")
    case True
    with a have "r = nextT s" by (simp add: sp)
    with b tm(1) show ?thesis by (simp add: h)
  next
    case False
    with a have a': "set_ns (spaces s ns) k = Some r" by (auto simp: sp split: if_splits)
    from ok_reg[OF w a'] have r: "r \<noteq> nextT s" by auto
    with b have "escapeErr (heap s r) \<noteq> None" by (simp add: h)
    from sync_out_old[OF y w e(2) a' this] r show ?thesis by (simp add: h)
  qed
qed

text \<open>A write to the fields of an allocated Template other than its name space.\<close>

lemma sync_heap_upd:
  assumes y: "sync_ok s" and w: "store_ok s"
    and h: "heap s' = (heap s)(r := tm)" and r: "r < nextT s"
    and n: "nameSpace tm = nameSpace (heap s r)"
    and sp: "spaces s' = spaces s" and c: "nextT s' = nextT s" and en: "eng s' = eng s"
    and tm: "\<And>m. escapeErr tm \<noteq> Some (Panic m)" "textT tm < nextText (eng s)"
      "text_common (texts (eng s) (textT tm)) = text_common (texts (eng s) (textT (heap s r)))"
    and nm: "\<And>ns k. set_ns (spaces s ns) k = Some r \<Longrightarrow> text_name (texts (eng s) (textT tm)) = k"
    and out: "\<And>ns k. set_ns (spaces s ns) k = Some r \<Longrightarrow> escapeErr tm \<noteq> None
                \<Longrightarrow> text_Lookup (eng s) (textT tm) k \<noteq> None"
  shows "sync_ok s'"
proof (rule syncI)
  show "engine_ok (eng s')" using sync_eng[OF y] by (simp add: en)
  show "textT (heap s' q) < nextText (eng s')" if "q < nextT s'" for q
    using that sync_text[OF y, of q] tm by (simp add: h c en)
  have cm: "text_common (texts (eng s') (textT (heap s' q)))
              = text_common (texts (eng s) (textT (heap s q)))" for q
    using tm(3) by (simp add: h en)
  have ns: "nameSpace (heap s' q) = nameSpace (heap s q)" for q
    using n by (simp add: h)
  show "text_common (texts (eng s') (textT (heap s' p)))
          = text_common (texts (eng s') (textT (heap s' q)))"
    if "p < nextT s'" "q < nextT s'" "nameSpace (heap s' p) = nameSpace (heap s' q)" for p q
    using that sync_common[OF y, of p q] unfolding cm ns c by simp
  show "Name s' q = k" if a: "set_ns (spaces s' ns) k = Some q" for ns k q
  proof (cases "q = r")
    case True
    with a nm[of ns k] show ?thesis by (simp add: Name_def h en sp)
  next
    case False
    with a sync_name[OF y, of ns k q] show ?thesis by (simp add: Name_def h en sp)
  qed
  show "escapeErr (heap s' q) \<noteq> Some (Panic m)" if "q < nextT s'" for q m
    using that sync_err[OF y, of q m] tm(1)[of m] by (simp add: h c)
  show "text_Lookup (eng s') (textT (heap s' q)) k \<noteq> None"
    if a: "set_ns (spaces s' ns) k = Some q" and b: "escapeErr (heap s' q) \<noteq> None" for ns k q
  proof (cases "q = r")
    case True
    with a b out[of ns k] show ?thesis by (simp add: h en sp)
  next
    case False
    with a b sync_out[OF y, of ns k q] show ?thesis by (simp add: h en sp)
  qed
qed

lemma sync_New: "sync_ok s \<Longrightarrow> store_ok s \<Longrightarrow> sync_ok (snd (New s nm))"
proof -
  assume y: "sync_ok s" and w: "store_ok s"
  note e = text_New_engine[OF sync_eng[OF y], of nm]
  show ?thesis
    by (rule sync_new_space[OF y w, where nm = nm and b = False and
          tm = "\<lparr>escapeErr = None, textT = nextText (eng s), Tree = None,
                 nameSpace = nextNs s\<rparr>"])
       (simp_all add: New_fields e, simp_all add: text_New_def)
qed

lemma new_eng_present:
  assumes "registry s t nm = Some ex" "ex \<noteq> nextT s"
  shows "eng (snd (new s t nm)) =
     fst (text_New (fst (text_Template_New (eng s) (textT (heap s t)) nm))
            (text_name (texts (fst (text_Template_New (eng s) (textT (heap s t)) nm))
                         (textT (heap s ex)))))"
  using assms
  by (simp add: new_def alloc_def set_put_def text_New_def text_Template_New_def registry_def
      Name_def New_def Let_def)

lemma sync_new:
  assumes y: "sync_ok s" and w: "store_ok s" and t: "t < nextT s"
  shows "sync_ok (snd (new s t nm))"
proof (cases "registry s t nm")
  case None
  note f = new_fields_absent[OF None]
  note tx = sync_text[OF y t]
  note e = text_Template_New_engine[OF sync_eng[OF y] tx, of nm]
  show ?thesis
  proof (rule sync_alloc_put[OF y w, where nm = nm and nsp = "nameSpace (heap s t)" and
          tm = "\<lparr>escapeErr = None, textT = nextText (eng s), Tree = None,
                 nameSpace = nameSpace (heap s t)\<rparr>"])
    show "text_common (texts (eng (snd (new s t nm)))
             (textT \<lparr>escapeErr = None, textT = nextText (eng s), Tree = None,
                     nameSpace = nameSpace (heap s t)\<rparr>))
           = text_common (texts (eng s) (textT (heap s q)))"
      if "q < nextT s" "nameSpace (heap s q) = nameSpace (heap s t)" for q
      using sync_common[OF y that(1) t that(2)]
      by (simp add: f text_Template_New_def)
  qed (simp_all add: f e, simp_all add: text_Template_New_def)
next
  case (Some ex)
  let ?s = "snd (new s t nm)"
  let ?n = "nameSpace (heap s t)"
  let ?e1 = "fst (text_Template_New (eng s) (textT (heap s t)) nm)"
  let ?k = "text_name (texts ?e1 (textT (heap s ex)))"
  let ?e2 = "fst (text_New ?e1 ?k)"
  from Some have reg: "set_ns (spaces s ?n) nm = Some ex"
    by (simp add: registry_def)
  from ok_reg[OF w reg] have ex: "ex < nextT s" "nameSpace (heap s ex) = ?n" by auto
  from ok_ns[OF w t] have ns: "?n < nextNs s" .
  have ne: "ex \<noteq> nextT s" "?n \<noteq> nextNs s" using ex ns by auto
  note f = new_fields_present[OF Some ne]
  note old = new_present_registered[OF w t Some]
  note tx = sync_text[OF y t]
  note e1 = text_Template_New_engine[OF sync_eng[OF y] tx, of nm]
  note e2 = text_New_engine[OF e1(1), of ?k]
  have en: "eng ?s = ?e2" by (rule new_eng_present[OF Some ne(1)])
  have ext: "engine_extends (eng s) ?e2" by (rule extends_trans[OF e1(2) e2(2)])
  have nx: "nextText ?e2 = Suc (Suc (nextText (eng s)))"
    by (simp add: text_New_def text_Template_New_def)
  have tA: "text_name (texts ?e2 (nextText (eng s))) = nm"
    "text_common (texts ?e2 (nextText (eng s))) = text_common (texts (eng s) (textT (heap s t)))"
    by (simp_all add: text_New_def text_Template_New_def)
  have tB: "text_name (texts ?e2 (Suc (nextText (eng s)))) = ?k"
    by (simp add: text_New_def text_Template_New_def)
  have new: "r < nextT s \<or> (r = nextT s \<and> ns = ?n \<and> k = nm) \<or>
             (r = Suc (nextT s) \<and> ns = nextNs s \<and> k = ?k)"
    if "set_ns (spaces ?s ns) k = Some r" for ns k r
    using that ok_reg[OF w, of ns k r] by (auto simp: f split: if_splits)
  have cls: "(r = nextT s \<and> heap ?s r = \<lparr>escapeErr = None, textT = nextText (eng s),
                 Tree = None, nameSpace = ?n\<rparr>) \<or>
             (heap ?s r = \<lparr>escapeErr = None, textT = Suc (nextText (eng s)), Tree = None,
                 nameSpace = nextNs s\<rparr>) \<or>
             (r < nextT s \<and> heap ?s r = heap s r)"
    if "r < nextT ?s" for r
    using that ne by (auto simp: f less_Suc_eq)
  show ?thesis
  proof (rule syncI)
    show "engine_ok (eng ?s)" unfolding en by (rule e2(1))
    show "textT (heap ?s r) < nextText (eng ?s)" if "r < nextT ?s" for r
      using cls[OF that] sync_old(1)[OF y ext, of r] unfolding en nx by auto
    show "text_common (texts (eng ?s) (textT (heap ?s r)))
            = text_common (texts (eng ?s) (textT (heap ?s q)))"
      if a: "r < nextT ?s" "q < nextT ?s" "nameSpace (heap ?s r) = nameSpace (heap ?s q)" for r q
    proof -
      have A: "text_common (texts ?e2 (textT (heap ?s p)))
                 = text_common (texts (eng s) (textT (heap s t)))"
        if "p < nextT s" "heap ?s p = heap s p" "nameSpace (heap s p) = ?n" for p
        using sync_old(3)[OF y ext that(1)] sync_common[OF y that(1) t that(3)] that(2) by simp
      have O: "nameSpace (heap s p) \<noteq> nextNs s" if "p < nextT s" for p
        using ok_ns[OF w that] by simp
      from cls[OF a(1)] show ?thesis
      proof (elim disjE conjE)
        assume r: "r = nextT s" "heap ?s r = \<lparr>escapeErr = None, textT = nextText (eng s),
                 Tree = None, nameSpace = ?n\<rparr>"
        from cls[OF a(2)] show ?thesis
        proof (elim disjE conjE)
          assume "q = nextT s"
          with r show ?thesis by simp
        next
          assume "heap ?s q = \<lparr>escapeErr = None, textT = Suc (nextText (eng s)), Tree = None,
                 nameSpace = nextNs s\<rparr>"
          with a(3) r ne show ?thesis by simp
        next
          assume q: "q < nextT s" "heap ?s q = heap s q"
          with a(3) r have "nameSpace (heap s q) = ?n" by simp
          from A[OF q this] r tA show ?thesis unfolding en by simp
        qed
      next
        assume r: "heap ?s r = \<lparr>escapeErr = None, textT = Suc (nextText (eng s)), Tree = None,
                 nameSpace = nextNs s\<rparr>"
        from cls[OF a(2)] show ?thesis
        proof (elim disjE conjE)
          assume "heap ?s q = \<lparr>escapeErr = None, textT = nextText (eng s),
                 Tree = None, nameSpace = ?n\<rparr>"
          with a(3) r ne show ?thesis by simp
        next
          assume "heap ?s q = \<lparr>escapeErr = None, textT = Suc (nextText (eng s)), Tree = None,
                 nameSpace = nextNs s\<rparr>"
          with r show ?thesis by simp
        next
          assume q: "q < nextT s" "heap ?s q = heap s q"
          with a(3) r O[OF q(1)] show ?thesis by simp
        qed
      next
        assume r: "r < nextT s" "heap ?s r = heap s r"
        from cls[OF a(2)] show ?thesis
        proof (elim disjE conjE)
          assume q: "heap ?s q = \<lparr>escapeErr = None, textT = nextText (eng s),
                 Tree = None, nameSpace = ?n\<rparr>"
          with a(3) r have "nameSpace (heap s r) = ?n" by simp
          from A[OF r this] q tA show ?thesis unfolding en by simp
        next
          assume "heap ?s q = \<lparr>escapeErr = None, textT = Suc (nextText (eng s)), Tree = None,
                 nameSpace = nextNs s\<rparr>"
          with a(3) r O[OF r(1)] show ?thesis by simp
        next
          assume q: "q < nextT s" "heap ?s q = heap s q"
          with a(3) r have "nameSpace (heap s r) = nameSpace (heap s q)" by simp
          from sync_common[OF y r(1) q(1) this] sync_old(3)[OF y ext r(1)]
            sync_old(3)[OF y ext q(1)] r q
          show ?thesis unfolding en by simp
        qed
      qed
    qed
    show "Name ?s r = k" if a: "set_ns (spaces ?s ns) k = Some r" for ns k r
      using new[OF a]
    proof (elim disjE conjE)
      assume r: "r < nextT s"
      from old[OF a r] have b: "set_ns (spaces s ns) k = Some r" "r \<noteq> ex" by simp_all
      from sync_old(2)[OF y ext r] sync_name[OF y b(1)] b(2) r show ?thesis
        unfolding Name_def en by (simp add: f)
    next
      assume "r = nextT s" "k = nm"
      with tA ne show ?thesis unfolding Name_def en by (simp add: f)
    next
      assume "r = Suc (nextT s)" "k = ?k"
      with tB ex show ?thesis unfolding Name_def en by (simp add: f)
    qed
    show "escapeErr (heap ?s r) \<noteq> Some (Panic m)" if "r < nextT ?s" for r m
      using cls[OF that] sync_err[OF y, of r m] by auto
    show "text_Lookup (eng ?s) (textT (heap ?s r)) k \<noteq> None"
      if a: "set_ns (spaces ?s ns) k = Some r" and b: "escapeErr (heap ?s r) \<noteq> None" for ns k r
      using new[OF a]
    proof (elim disjE conjE)
      assume r: "r < nextT s"
      from old[OF a r] have c: "set_ns (spaces s ns) k = Some r" "r \<noteq> ex" by simp_all
      with r have h: "heap ?s r = heap s r" by (simp add: f)
      with b have "escapeErr (heap s r) \<noteq> None" by simp
      from sync_out_old[OF y w ext c(1) this] h show ?thesis unfolding en by simp
    next
      assume "r = nextT s"
      with b ne show ?thesis by (simp add: f)
    next
      assume "r = Suc (nextT s)"
      with b ex show ?thesis by (simp add: f)
    qed
  qed
qed

subsection \<open>Definition operations\<close>

lemma sync_Parse_body:
  assumes y: "sync_ok s" and w: "store_ok s" and t: "t < nextT s"
    and v: "v < nextText (eng s)"
      "text_common (texts (eng s) v) = text_common (texts (eng s) (textT (heap s t)))"
  shows "sync_ok (Parse_body s t v)"
proof (cases "registry s t (text_name (texts (eng s) v))")
  case (Some r)
  let ?n = "nameSpace (heap s t)"
  from Some have reg: "set_ns (spaces s ?n) (text_name (texts (eng s) v)) = Some r"
    by (simp add: registry_def)
  from ok_reg[OF w reg] have r: "r < nextT s" "nameSpace (heap s r) = ?n" by auto
  show ?thesis
    unfolding Parse_body_present[OF Some]
  proof (rule sync_heap_upd[OF y w _ r(1), where
          tm = "(heap s r)\<lparr>textT := v, Tree := text_Tree (texts (eng s) v)\<rparr>"])
    show "escapeErr ((heap s r)\<lparr>textT := v, Tree := text_Tree (texts (eng s) v)\<rparr>)
            \<noteq> Some (Panic m)" for m
      using sync_err[OF y r(1), of m] by simp
    show "text_common (texts (eng s)
             (textT ((heap s r)\<lparr>textT := v, Tree := text_Tree (texts (eng s) v)\<rparr>)))
           = text_common (texts (eng s) (textT (heap s r)))"
      using sync_common[OF y r(1) t r(2)] v(2) by simp
    show "text_name (texts (eng s)
             (textT ((heap s r)\<lparr>textT := v, Tree := text_Tree (texts (eng s) v)\<rparr>))) = k"
      if a: "set_ns (spaces s ns) k = Some r" for ns k
    proof -
      from ok_reg[OF w a] r have "ns = ?n" by simp
      with a ok_inj[OF w reg, of k] show ?thesis by simp
    qed
    show "text_Lookup (eng s)
             (textT ((heap s r)\<lparr>textT := v, Tree := text_Tree (texts (eng s) v)\<rparr>)) k \<noteq> None"
      if a: "set_ns (spaces s ns) k = Some r"
        and b: "escapeErr ((heap s r)\<lparr>textT := v, Tree := text_Tree (texts (eng s) v)\<rparr>) \<noteq> None"
      for ns k
    proof -
      from b have "escapeErr (heap s r) \<noteq> None" by simp
      from sync_out[OF y a this] sync_common[OF y r(1) t r(2)] v(2) show ?thesis
        by (simp add: text_Lookup_def)
    qed
  qed (simp_all add: v)
next
  case None
  let ?nm = "text_name (texts (eng s) v)"
  let ?s1 = "snd (new s t ?nm)"
  let ?n = "nameSpace (heap s t)"
  note f = new_fields_absent[OF None]
  note y1 = sync_new[OF y w t, of ?nm]
  note w1 = ok_new[OF w t, of ?nm]
  have tv: "texts (eng ?s1) v = texts (eng s) v" "v < nextText (eng ?s1)"
    using v(1) by (simp_all add: f text_Template_New_def)
  show ?thesis
    unfolding Parse_body_absent[OF None] Let_def
  proof (rule sync_heap_upd[OF y1 w1, where r = "nextT s" and
          tm = "(heap ?s1 (nextT s))\<lparr>textT := v, Tree := text_Tree (texts (eng ?s1) v)\<rparr>"])
    show "text_common (texts (eng ?s1)
             (textT ((heap ?s1 (nextT s))\<lparr>textT := v, Tree := text_Tree (texts (eng ?s1) v)\<rparr>)))
           = text_common (texts (eng ?s1) (textT (heap ?s1 (nextT s))))"
      using v(2) by (simp add: tv) (simp add: f text_Template_New_def)
    show "text_name (texts (eng ?s1)
             (textT ((heap ?s1 (nextT s))\<lparr>textT := v, Tree := text_Tree (texts (eng ?s1) v)\<rparr>)))
           = k"
      if a: "set_ns (spaces ?s1 ns) k = Some (nextT s)" for ns k
    proof (cases "ns = ?n \<and> k = ?nm")
      case True
      then show ?thesis by (simp add: tv)
    next
      case False
      with a have "set_ns (spaces s ns) k = Some (nextT s)" by (auto simp: f split: if_splits)
      with ok_fresh[OF w, of "nextT s" ns k] show ?thesis by simp
    qed
  qed (simp_all add: tv, simp_all add: f)
qed

lemma Parse_body_text_of:
  assumes t: "t < nextT s"
  shows "textT (heap (Parse_body s t v) t) = textT (heap s t) \<or>
         textT (heap (Parse_body s t v) t) = v"
proof (cases "registry s t (text_name (texts (eng s) v))")
  case None
  with t show ?thesis by (simp add: Parse_body_absent[OF None] Let_def new_fields_absent[OF None])
next
  case (Some r)
  then show ?thesis by (simp add: Parse_body_present[OF Some])
qed

lemma sync_Parse_loop:
  "sync_ok s \<Longrightarrow> store_ok s \<Longrightarrow> t < nextT s \<Longrightarrow>
   \<forall>v\<in>set vs. v < nextText (eng s) \<and>
      text_common (texts (eng s) v) = text_common (texts (eng s) (textT (heap s t))) \<Longrightarrow>
   sync_ok (Parse_loop s t vs)"
proof (induction vs arbitrary: s)
  case Nil
  then show ?case by simp
next
  case (Cons v vs)
  let ?s = "Parse_body s t v"
  from Cons.prems have v: "v < nextText (eng s)"
    "text_common (texts (eng s) v) = text_common (texts (eng s) (textT (heap s t)))"
    by simp_all
  note y = sync_Parse_body[OF Cons.prems(1-3) v]
  note w = ok_Parse_body[OF Cons.prems(2,3), of v]
  from Cons.prems(3) nextT_Parse_body[of s t v] have t: "t < nextT ?s" by simp
  from sync_text[OF Cons.prems(1,3)] have tx: "textT (heap s t) < nextText (eng s)" .
  have c: "text_common (texts (eng ?s) (textT (heap ?s t)))
             = text_common (texts (eng s) (textT (heap s t)))"
    using Parse_body_text_of[OF Cons.prems(3), of v] Parse_body_texts(1)[OF v(1), of t v]
      Parse_body_texts(1)[OF tx, of t v] v(2) by auto
  have "\<forall>x\<in>set vs. x < nextText (eng ?s) \<and>
      text_common (texts (eng ?s) x) = text_common (texts (eng ?s) (textT (heap ?s t)))"
  proof
    fix x assume "x \<in> set vs"
    with Cons.prems(4) have x: "x < nextText (eng s)"
      "text_common (texts (eng s) x) = text_common (texts (eng s) (textT (heap s t)))"
      by simp_all
    from x Parse_body_texts(1)[OF x(1), of t v] Parse_body_texts(2)[of s t v] c
    show "x < nextText (eng ?s) \<and>
      text_common (texts (eng ?s) x) = text_common (texts (eng ?s) (textT (heap ?s t)))"
      by simp
  qed
  from Cons.IH[OF y w t this] show ?case by simp
qed

lemma sync_Parse:
  assumes y: "sync_ok s" and w: "store_ok s" and t: "t < nextT s"
    and a: "Parse_answer_ok (eng s) (textT (heap s t)) ans"
  shows "sync_ok (snd (Parse s t body ans))"
proof -
  obtain e res where ans: "ans = (e, res)" by (cases ans)
  from a have e: "engine_ok e" "engine_extends (eng s) e"
    by (simp_all add: ans Parse_answer_ok_def)
  note y1 = sync_eng_upd[OF y w e]
  note w1 = ok_eng[OF w, of e]
  show ?thesis
  proof (cases "checkCanParse s (Some t)")
    case (Some err)
    with y show ?thesis by (simp add: Parse_def)
  next
    case None
    show ?thesis
    proof (cases res)
      case (Inl m)
      with None y1 show ?thesis by (simp add: Parse_def ans)
    next
      case (Inr vs)
      from sync_old(3)[OF y e(2) t]
      have c: "text_common (texts e (textT (heap s t)))
                 = text_common (texts (eng s) (textT (heap s t)))" .
      from a have "\<forall>v\<in>set vs. v < nextText e \<and>
          text_common (texts e v) = text_common (texts (eng s) (textT (heap s t)))"
        by (simp add: ans Inr Parse_answer_ok_def)
      with c have "\<forall>v\<in>set vs. v < nextText (eng (s\<lparr>eng := e\<rparr>)) \<and>
          text_common (texts (eng (s\<lparr>eng := e\<rparr>)) v)
            = text_common (texts (eng (s\<lparr>eng := e\<rparr>)) (textT (heap (s\<lparr>eng := e\<rparr>) t)))"
        by simp
      from sync_Parse_loop[OF y1 w1 _ this] t None show ?thesis
        by (simp add: Parse_def ans Inr)
    qed
  qed
qed

lemma sync_AddParseTree:
  assumes y: "sync_ok s" and w: "store_ok s" and t: "t < nextT s"
    and a: "AddParseTree_answer_ok (eng s) (textT (heap s t)) nm ans"
  shows "sync_ok (snd (AddParseTree s t nm tree ans))"
proof -
  obtain e res where ans: "ans = (e, res)" by (cases ans)
  from a have e: "engine_ok e" "engine_extends (eng s) e"
    by (simp_all add: ans AddParseTree_answer_ok_def)
  from AddParseTree_cases[of s t nm tree ans] show ?thesis
  proof (elim disjE exE conjE)
    assume "snd (AddParseTree s t nm tree ans) = s"
    with y show ?thesis by simp
  next
    fix m assume "snd (AddParseTree s t nm tree ans) = s\<lparr>eng := fst ans\<rparr>"
    with sync_eng_upd[OF y w e] show ?thesis by (simp add: ans)
  next
    fix tx assume b: "\<not> escaped (spaces s (nameSpace (heap s t)))" "snd ans = Inr tx"
    from t have ne: "t \<noteq> nextT s" by simp
    note f = AddParseTree_fields[OF b(1) ne, of nm tree e tx]
    from b ans have ans': "ans = (e, Inr tx)" by simp
    from a have tx: "tx < nextText e" "text_name (texts e tx) = nm"
      "text_common (texts e tx) = text_common (texts (eng s) (textT (heap s t)))"
      by (simp_all add: ans' AddParseTree_answer_ok_def)
    show ?thesis
      unfolding ans'
    proof (rule sync_alloc_put[OF y w, where nm = nm and nsp = "nameSpace (heap s t)" and
            tm = "\<lparr>escapeErr = None, textT = tx, Tree = text_Tree (texts e tx),
                   nameSpace = nameSpace (heap s t)\<rparr>"])
      show "text_common (texts (eng (snd (AddParseTree s t nm tree (e, Inr tx))))
               (textT \<lparr>escapeErr = None, textT = tx, Tree = text_Tree (texts e tx),
                       nameSpace = nameSpace (heap s t)\<rparr>))
             = text_common (texts (eng s) (textT (heap s q)))"
        if "q < nextT s" "nameSpace (heap s q) = nameSpace (heap s t)" for q
        using sync_common[OF y that(1) t that(2)] tx by (simp add: f)
    qed (simp_all add: f e tx)
  qed
qed

subsection \<open>Clone\<close>

lemma sync_Clone_start:
  assumes y: "sync_ok s" and w: "store_ok s" and tc: "tc < nextText (eng s)"
  shows "sync_ok (snd (Clone_start s tc))"
  by (rule sync_new_space[OF y w, where nm = "text_name (texts (eng s) tc)" and b = False and
        tm = "\<lparr>escapeErr = None, textT = tc, Tree = text_Tree (texts (eng s) tc),
               nameSpace = nextNs s\<rparr>"])
     (simp_all add: Clone_start_fields sync_eng[OF y] extends_refl tc)

lemma Clone_body_engine:
  assumes e: "engine_ok (eng s)"
  shows "engine_ok (eng (snd (Clone_body s t ret x)))"
    "engine_extends (eng s) (eng (snd (Clone_body s t ret x)))"
    "nextText (eng (snd (Clone_body s t ret x))) = nextText (eng s)"
    "text_common (texts (eng (snd (Clone_body s t ret x))) z) = text_common (texts (eng s) z)"
proof -
  let ?e = "eng (snd (Clone_body s t ret x))"
  have a: "nextText ?e = nextText (eng s)" "nextCommon ?e = nextCommon (eng s)"
    "associated ?e = associated (eng s)"
    "\<And>z. text_name (texts ?e z) = text_name (texts (eng s) z)"
    "\<And>z. text_common (texts ?e z) = text_common (texts (eng s) z)"
    "\<And>z. text_Tree (texts ?e z) \<noteq> None \<Longrightarrow> text_Tree (texts (eng s) z) \<noteq> None"
    by (auto simp: Clone_body_eng Tree_Copy_def split: option.splits if_splits)
  from e show "engine_ok ?e" unfolding engine_ok_def a by (meson a(6))
  show "engine_extends (eng s) ?e" unfolding engine_extends_def a by simp
  show "nextText ?e = nextText (eng s)" by (rule a)
  show "text_common (texts ?e z) = text_common (texts (eng s) z)" by (rule a)
qed

lemma sync_Clone_body:
  assumes y: "sync_ok s" and w: "store_ok s" and r: "ret < nextT s"
    and x: "x < nextText (eng s)"
      "text_common (texts (eng s) x) = text_common (texts (eng s) (textT (heap s ret)))"
  shows "sync_ok (snd (Clone_body s t ret x))"
proof (cases "Clone_body_ok s t x")
  case False
  with y show ?thesis by (simp add: Clone_body_error)
next
  case True
  from r have ne: "ret \<noteq> nextT s" by simp
  note f = Clone_body_fields[OF True ne]
  note e = Clone_body_engine[OF sync_eng[OF y], of t ret x]
  show ?thesis
  proof (rule sync_alloc_put[OF y w, where nm = "text_name (texts (eng s) x)" and
          nsp = "nameSpace (heap s ret)" and
          tm = "\<lparr>escapeErr = None, textT = x,
                 Tree = snd (Tree_Copy (eng s) (text_Tree (texts (eng s) x))),
                 nameSpace = nameSpace (heap s ret)\<rparr>"])
    show "text_common (texts (eng (snd (Clone_body s t ret x)))
             (textT \<lparr>escapeErr = None, textT = x,
                 Tree = snd (Tree_Copy (eng s) (text_Tree (texts (eng s) x))),
                 nameSpace = nameSpace (heap s ret)\<rparr>))
           = text_common (texts (eng s) (textT (heap s q)))"
      if "q < nextT s" "nameSpace (heap s q) = nameSpace (heap s ret)" for q
      using sync_common[OF y that(1) r that(2)] x(2) by (simp add: e)
  qed (simp_all add: f e x Clone_body_names)
qed

lemma Clone_body_ret:
  "ret < nextT s \<Longrightarrow> heap (snd (Clone_body s t ret x)) ret = heap s ret"
  by (cases "Clone_body_ok s t x") (simp_all add: Clone_body_error Clone_body_fields)

lemma sync_Clone_loop:
  "sync_ok s \<Longrightarrow> store_ok s \<Longrightarrow> ret < nextT s \<Longrightarrow>
   \<forall>x\<in>set xs. x < nextText (eng s) \<and>
      text_common (texts (eng s) x) = text_common (texts (eng s) (textT (heap s ret))) \<Longrightarrow>
   sync_ok (snd (Clone_loop s t ret xs))"
proof (induction xs arbitrary: s)
  case Nil
  then show ?case by simp
next
  case (Cons x xs)
  let ?s = "snd (Clone_body s t ret x)"
  from Cons.prems have x: "x < nextText (eng s)"
    "text_common (texts (eng s) x) = text_common (texts (eng s) (textT (heap s ret)))"
    by simp_all
  note y = sync_Clone_body[OF Cons.prems(1-3) x, of t]
  note w = ok_Clone_body[OF Cons.prems(2,3), of t x]
  note e = Clone_body_engine[OF sync_eng[OF Cons.prems(1)], of t ret x]
  from Cons.prems(3) nextT_Clone_body[of s t ret x] have r: "ret < nextT ?s" by simp
  from Cons.prems(4) have "\<forall>z\<in>set xs. z < nextText (eng ?s) \<and>
      text_common (texts (eng ?s) z) = text_common (texts (eng ?s) (textT (heap ?s ret)))"
    by (simp add: e Clone_body_ret[OF Cons.prems(3)])
  from Cons.IH[OF y w r this] y show ?case
    unfolding Clone_loop_Cons by (simp split: option.splits)
qed

lemma sync_Clone:
  assumes y: "sync_ok s" and w: "store_ok s" and a: "Clone_answer_ok (eng s) ans"
  shows "sync_ok (snd (Clone s t ans))"
proof -
  obtain e res where ans: "ans = (e, res)" by (cases ans)
  from a have e: "engine_ok e" "engine_extends (eng s) e"
    by (simp_all add: ans Clone_answer_ok_def)
  note y1 = sync_eng_upd[OF y w e]
  note w1 = ok_eng[OF w, of e]
  show ?thesis
  proof (cases "escapeErr (heap s t) = None")
    case False
    with y show ?thesis by (simp add: Clone_def)
  next
    case True
    show ?thesis
    proof (cases res)
      case (Inl m)
      with True y1 show ?thesis by (simp add: Clone_def ans)
    next
      case (Inr p)
      obtain tc xs where p: "p = (tc, xs)" by (cases p)
      let ?s1 = "snd (Clone_start (s\<lparr>eng := e\<rparr>) tc)"
      from a have tc: "tc < nextText e"
        and xs: "\<forall>x\<in>set xs. x < nextText e \<and> text_common (texts e x) = text_common (texts e tc)"
        by (simp_all add: ans Inr p Clone_answer_ok_def)
      from tc have y2: "sync_ok ?s1" by (intro sync_Clone_start[OF y1 w1]) simp
      have w2: "store_ok ?s1" by (rule ok_Clone_start[OF w1])
      from xs have "\<forall>x\<in>set xs. x < nextText (eng ?s1) \<and>
          text_common (texts (eng ?s1) x)
            = text_common (texts (eng ?s1) (textT (heap ?s1 (nextT s))))"
        by (simp add: Clone_start_fields)
      from sync_Clone_loop[OF y2 w2 _ this, of t]
      have "sync_ok (snd (Clone_loop ?s1 t (nextT s) xs))" by (simp add: Clone_start_fields)
      then show ?thesis
        unfolding ans Inr p Clone_unfold[OF True] by (simp add: Let_def split: option.splits)
    qed
  qed
qed

subsection \<open>Execution\<close>

lemma sync_set_escaped:
  assumes y: "sync_ok s" and w: "store_ok s"
  shows "sync_ok (set_escaped s t)"
  by (rule sync_engine[OF y w]) (simp_all add: sync_eng[OF y] extends_refl)

lemma sync_escapeTemplate:
  assumes y: "sync_ok s" and w: "store_ok s" and r: "r < nextT s"
    and tr: "text_Tree (texts (eng s) (textT (heap s r))) \<noteq> None"
  shows "sync_ok (snd (escapeTemplate s r root nm oc))"
proof (rule sync_heap_upd[OF y w _ r, where tm = "(heap s r)
          \<lparr>escapeErr := Some (case oc of None \<Rightarrow> escapeOK | Some m \<Rightarrow> EscapeFailed m)\<rparr>"])
  show "text_name (texts (eng s) (textT ((heap s r)
          \<lparr>escapeErr := Some (case oc of None \<Rightarrow> escapeOK | Some m \<Rightarrow> EscapeFailed m)\<rparr>))) = k"
    if "set_ns (spaces s ns) k = Some r" for ns k
    using sync_name[OF y that] by (simp add: Name_def)
  show "text_Lookup (eng s) (textT ((heap s r)
          \<lparr>escapeErr := Some (case oc of None \<Rightarrow> escapeOK | Some m \<Rightarrow> EscapeFailed m)\<rparr>)) k
          \<noteq> None"
    if "set_ns (spaces s ns) k = Some r" for ns k
    using sync_name[OF y that] engine_ok_defined[OF sync_eng[OF y] sync_text[OF y r] tr]
    by (simp add: Name_def)
qed (simp_all add: escapeTemplate_fields sync_text[OF y r] split: option.splits)

lemma sync_executed_eq: "sync_ok (s\<lparr>executed := xs\<rparr>) = sync_ok s"
  by (simp add: sync_ok_def Name_def)

lemma sync_executed: "sync_ok s \<Longrightarrow> sync_ok (s\<lparr>executed := xs\<rparr>)"
  by (simp add: sync_executed_eq)

lemma sync_escape:
  assumes y: "sync_ok s" and w: "store_ok s" and t: "t < nextT s"
  shows "sync_ok (snd (escape s t oc))"
proof -
  let ?s1 = "set_escaped s t"
  note y1 = sync_set_escaped[OF y w, of t]
  from t have t1: "t < nextT ?s1" by simp
  have y2: "sync_ok (snd (escapeTemplate ?s1 t root nm oc))"
    if "text_Tree (texts (eng s) (textT (heap s t))) = Some tr" for root nm tr
    using that by (intro sync_escapeTemplate[OF y1 ok_set_escaped[OF w, of t] t1]) simp
  show ?thesis
    unfolding escape_def Let_def
    by (simp add: y1 y2 split: option.splits)
qed

lemma sync_Execute:
  assumes y: "sync_ok s" and w: "store_ok s" and t: "t < nextT s"
  shows "sync_ok (snd (Execute s t oc res))"
proof (cases "fst (escape s t oc)")
  case None
  with sync_executed[OF sync_escape[OF y w t, of oc]] show ?thesis
    by (simp add: Execute_def text_Execute_def split_def)
next
  case (Some err)
  with sync_escape[OF y w t, of oc] show ?thesis
    by (simp add: Execute_def split_def)
qed

lemma sync_lookupAndEscapeTemplate:
  assumes y: "sync_ok s" and w: "store_ok s"
  shows "sync_ok (snd (lookupAndEscapeTemplate s t nm oc))"
proof -
  let ?s1 = "set_escaped s t"
  note y1 = sync_set_escaped[OF y w, of t]
  note w1 = ok_set_escaped[OF w, of t]
  have y2: "sync_ok (snd (escapeTemplate ?s1 r root nm oc))"
    if "registry s t nm = Some r" "text_Tree (texts (eng s) (textT (heap s r))) = Some tr"
    for r root tr
  proof -
    from ok_registry[OF w that(1)] have "r < nextT ?s1" by simp
    from that(2) show ?thesis by (intro sync_escapeTemplate[OF y1 w1 \<open>r < nextT ?s1\<close>]) simp
  qed
  show ?thesis
  proof (cases "registry s t nm")
    case None
    with y1 show ?thesis by (simp add: lookupAndEscapeTemplate_def Let_def)
  next
    case (Some r)
    show ?thesis
      unfolding lookupAndEscapeTemplate_def Let_def
      by (simp add: Some y1 y2[OF Some] split_def split: option.splits)
  qed
qed

lemma sync_ExecuteTemplate:
  assumes y: "sync_ok s" and w: "store_ok s"
  shows "sync_ok (snd (ExecuteTemplate s t nm oc res))"
proof -
  note y1 = sync_lookupAndEscapeTemplate[OF y w, of t nm oc]
  note y2 = sync_executed[OF y1]
  show ?thesis
    unfolding ExecuteTemplate_def text_Execute_def
    by (simp add: y1 y2 split_def split: option.splits)
qed

subsection \<open>Files, and whole sequences of calls\<close>

lemma sync_Template_New:
  "sync_ok s \<Longrightarrow> store_ok s \<Longrightarrow> t < nextT s \<Longrightarrow> sync_ok (snd (Template_New s t nm))"
  unfolding Template_New_def by (rule sync_new)

lemma files_ok_Cons:
  assumes "contents f = Inr body"
  shows "files_ok s t (f # fs) =
     (let p1 = (case t of None \<Rightarrow> New s (base f) | Some r \<Rightarrow> (r, s));
          p2 = (if base f = Name (snd p1) (fst p1) then p1
                else Template_New (snd p1) (fst p1) (base f));
          p3 = Parse (snd p2) (fst p2) body (parsed f)
      in Parse_answer_ok (eng (snd p2)) (textT (heap (snd p2) (fst p2))) (parsed f) \<and>
         (case fst p3 of Inl err \<Rightarrow> True
          | Inr r \<Rightarrow> files_ok (snd p3) (Some (fst p1)) fs))"
proof -
  obtain t1 s1 where p1: "(case t of None \<Rightarrow> New s (base f) | Some r \<Rightarrow> (r, s)) = (t1, s1)"
    by (cases "case t of None \<Rightarrow> New s (base f) | Some r \<Rightarrow> (r, s)")
  show ?thesis
  proof (cases "base f = Name s1 t1")
    case True
    obtain r3 s3 where p3: "Parse s1 t1 body (parsed f) = (r3, s3)"
      by (cases "Parse s1 t1 body (parsed f)")
    show ?thesis
      by (cases r3) (simp_all add: assms p1 p3 True Let_def)
  next
    case False
    obtain tmpl s2 where p2: "Template_New s1 t1 (base f) = (tmpl, s2)"
      by (cases "Template_New s1 t1 (base f)")
    obtain r3 s3 where p3: "Parse s2 tmpl body (parsed f) = (r3, s3)"
      by (cases "Parse s2 tmpl body (parsed f)")
    show ?thesis
      by (cases r3) (simp_all add: assms p1 p2 p3 False Let_def)
  qed
qed

lemma parseFiles_loop_Cons:
  assumes "contents f = Inr body"
  shows "parseFiles_loop s t (f # fs) =
     (let p1 = (case t of None \<Rightarrow> New s (base f) | Some r \<Rightarrow> (r, s));
          p2 = (if base f = Name (snd p1) (fst p1) then p1
                else Template_New (snd p1) (fst p1) (base f));
          p3 = Parse (snd p2) (fst p2) body (parsed f)
      in case fst p3 of Inl err \<Rightarrow> (Inl err, snd p3)
         | Inr r \<Rightarrow> parseFiles_loop (snd p3) (Some (fst p1)) fs)"
proof -
  obtain t1 s1 where p1: "(case t of None \<Rightarrow> New s (base f) | Some r \<Rightarrow> (r, s)) = (t1, s1)"
    by (cases "case t of None \<Rightarrow> New s (base f) | Some r \<Rightarrow> (r, s)")
  show ?thesis
  proof (cases "base f = Name s1 t1")
    case True
    obtain r3 s3 where p3: "Parse s1 t1 body (parsed f) = (r3, s3)"
      by (cases "Parse s1 t1 body (parsed f)")
    show ?thesis
      by (cases r3) (simp_all add: assms p1 p3 True Let_def)
  next
    case False
    obtain tmpl s2 where p2: "Template_New s1 t1 (base f) = (tmpl, s2)"
      by (cases "Template_New s1 t1 (base f)")
    obtain r3 s3 where p3: "Parse s2 tmpl body (parsed f) = (r3, s3)"
      by (cases "Parse s2 tmpl body (parsed f)")
    show ?thesis
      by (cases r3) (simp_all add: assms p1 p2 p3 False Let_def)
  qed
qed

lemma sync_parseFiles_loop:
  "sync_ok s \<Longrightarrow> store_ok s \<Longrightarrow> is_handle_opt s t \<Longrightarrow> files_ok s t fs
     \<Longrightarrow> sync_ok (snd (parseFiles_loop s t fs))"
proof (induction fs arbitrary: s t)
  case Nil
  then show ?case by simp
next
  case (Cons f fs)
  show ?case
  proof (cases "contents f")
    case (Inl m)
    with Cons.prems show ?thesis by simp
  next
    case (Inr body)
    define p1 where "p1 = (case t of None \<Rightarrow> New s (base f) | Some r \<Rightarrow> (r, s))"
    define p2 where "p2 = (if base f = Name (snd p1) (fst p1) then p1
                           else Template_New (snd p1) (fst p1) (base f))"
    define p3 where "p3 = Parse (snd p2) (fst p2) body (parsed f)"
    have "files_ok s t (f # fs) =
            (Parse_answer_ok (eng (snd p2)) (textT (heap (snd p2) (fst p2))) (parsed f) \<and>
             (case fst p3 of Inl err \<Rightarrow> True
              | Inr r \<Rightarrow> files_ok (snd p3) (Some (fst p1)) fs))"
      unfolding files_ok_Cons[OF Inr] p1_def p2_def p3_def Let_def by (rule refl)
    with Cons.prems(4)
    have a: "Parse_answer_ok (eng (snd p2)) (textT (heap (snd p2) (fst p2))) (parsed f)"
      and b: "(case fst p3 of Inl err \<Rightarrow> True | Inr r \<Rightarrow> files_ok (snd p3) (Some (fst p1)) fs)"
      by simp_all
    have 1: "sync_ok (snd p1) \<and> store_ok (snd p1) \<and> fst p1 < nextT (snd p1)"
      using Cons.prems(1-3)
      by (auto simp: p1_def is_handle_opt_def is_handle_def New_fields ok_New sync_New
          split: option.splits)
    have 2: "sync_ok (snd p2) \<and> store_ok (snd p2) \<and> fst p2 < nextT (snd p2) \<and>
             fst p1 < nextT (snd p2)"
      using 1 ok_Template_New[of "snd p1" "fst p1" "base f"]
        sync_Template_New[of "snd p1" "fst p1" "base f"]
        nextT_Template_New[of "snd p1" "fst p1" "base f"]
        new_lt[of "snd p1" "fst p1" "base f"]
      by (auto simp: p2_def Template_New_def)
    have 3: "sync_ok (snd p3) \<and> store_ok (snd p3) \<and> fst p1 < nextT (snd p3)"
      using 2 a ok_Parse[of "snd p2" "fst p2" body "parsed f"]
        sync_Parse[of "snd p2" "fst p2" "parsed f" body]
        nextT_Parse[of "snd p2" "fst p2" body "parsed f"]
      by (auto simp: p3_def)
    have pl: "parseFiles_loop s t (f # fs) =
            (case fst p3 of Inl err \<Rightarrow> (Inl err, snd p3)
             | Inr r \<Rightarrow> parseFiles_loop (snd p3) (Some (fst p1)) fs)"
      unfolding parseFiles_loop_Cons[OF Inr] p1_def p2_def p3_def Let_def by (rule refl)
    show ?thesis
    proof (cases "fst p3")
      case (Inl err)
      with 3 show ?thesis unfolding pl by simp
    next
      case r: (Inr r)
      with b have "files_ok (snd p3) (Some (fst p1)) fs" by simp
      with r 3 Cons.IH[of "snd p3" "Some (fst p1)"] show ?thesis
        unfolding pl by (simp add: is_handle_opt_def is_handle_def)
    qed
  qed
qed

lemma sync_parseFiles:
  "sync_ok s \<Longrightarrow> store_ok s \<Longrightarrow> is_handle_opt s t \<Longrightarrow> files_ok s t fs
     \<Longrightarrow> sync_ok (snd (parseFiles s t fs))"
  using sync_parseFiles_loop[of s t fs]
  by (simp add: parseFiles_def split: option.splits)

lemma sync_parseGlob:
  "sync_ok s \<Longrightarrow> store_ok s \<Longrightarrow> is_handle_opt s t
     \<Longrightarrow> (case glob of Inl m \<Rightarrow> True | Inr files \<Rightarrow> files_ok s t files)
     \<Longrightarrow> sync_ok (snd (parseGlob s t pattern glob))"
  using sync_parseFiles[of s t]
  by (simp add: parseGlob_def split: option.splits sum.splits)

lemma sync_step:
  assumes y: "sync_ok s" and w: "store_ok s" and a: "answers_ok s c"
  shows "sync_ok (step s c)"
proof (cases "is_handle_opt s (receiver c)")
  case False
  with y show ?thesis by (simp add: step_def)
next
  case True
  then have "sync_ok (perform s c)"
    using y w a
    by (cases c)
       (simp_all add: is_handle_opt_def is_handle_def sync_New sync_Template_New sync_Parse
          sync_AddParseTree sync_Clone sync_Execute sync_ExecuteTemplate sync_parseFiles
          sync_parseGlob)
  with True show ?thesis by (simp add: step_def)
qed

lemma sync_foldl:
  "sync_ok s \<Longrightarrow> store_ok s \<Longrightarrow> contract s cs \<Longrightarrow> sync_ok (foldl step s cs)"
proof (induction cs arbitrary: s)
  case Nil
  then show ?case by simp
next
  case (Cons c cs)
  from Cons.prems have a: "answers_ok s c" "contract (step s c) cs" by simp_all
  from Cons.IH[OF sync_step[OF Cons.prems(1,2) a(1)] ok_step[OF Cons.prems(2)] a(2)]
  show ?case by simp
qed

lemma sync_run: "contract init_state cs \<Longrightarrow> sync_ok (run cs)"
  unfolding run_def by (rule sync_foldl[OF sync_init ok_init])

subsection \<open>What being in step gives at the lookup\<close>

lemma in_step_Lookup:
  assumes y: "sync_ok s" and w: "store_ok s" and t: "t < nextT s"
    and reg: "registry s t nm = Some r"
    and tr: "text_Tree (texts (eng s) (textT (heap s r))) \<noteq> None"
  shows "text_Lookup (eng s) (textT (heap s t)) nm \<noteq> None"
proof -
  from ok_registry[OF w reg] have r: "r < nextT s" "nameSpace (heap s r) = nameSpace (heap s t)"
    by simp_all
  from reg have "set_ns (spaces s (nameSpace (heap s t))) nm = Some r" by (simp add: registry_def)
  from sync_name[OF y this] have n: "text_name (texts (eng s) (textT (heap s r))) = nm"
    by (simp add: Name_def)
  from sync_common[OF y r(1) t r(2)]
  have c: "text_common (texts (eng s) (textT (heap s r)))
             = text_common (texts (eng s) (textT (heap s t)))" .
  from sync_eng[OF y] sync_text[OF y r(1)] tr
  have "associated (eng s) (text_common (texts (eng s) (textT (heap s r))))
          (text_name (texts (eng s) (textT (heap s r)))) \<noteq> None"
    unfolding engine_ok_def by blast
  then show ?thesis by (simp add: text_Lookup_def n c)
qed

lemma lookupAndEscapeTemplate_no_panic:
  assumes y: "sync_ok s" and w: "store_ok s" and t: "t < nextT s"
  shows "snd (fst (lookupAndEscapeTemplate s t nm oc)) \<noteq> Some (Panic m)"
    "fst (fst (lookupAndEscapeTemplate s t nm oc)) = None
       \<Longrightarrow> snd (fst (lookupAndEscapeTemplate s t nm oc)) \<noteq> None"
proof -
  let ?s1 = "set_escaped s t"
  have s1: "heap ?s1 = heap s" "eng ?s1 = eng s" "registry ?s1 t nm = registry s t nm"
    by simp_all
  show "snd (fst (lookupAndEscapeTemplate s t nm oc)) \<noteq> Some (Panic m)"
  proof (cases "registry s t nm")
    case None
    then show ?thesis by (simp add: lookupAndEscapeTemplate_def Let_def)
  next
    case (Some r)
    from ok_registry[OF w Some] have r: "r < nextT s" by simp
    note e = sync_err[OF y r, of m]
    show ?thesis
    proof (cases "text_Tree (texts (eng s) (textT (heap s r)))")
      case None
      with Some e show ?thesis by (simp add: lookupAndEscapeTemplate_def Let_def)
    next
      case (Some tr)
      with in_step_Lookup[OF y w t \<open>registry s t nm = Some r\<close>]
      have "text_Lookup (eng s) (textT (heap s t)) nm \<noteq> None" by simp
      then obtain x where "text_Lookup (eng s) (textT (heap s t)) nm = Some x" by auto
      with Some \<open>registry s t nm = Some r\<close> e show ?thesis
        by (simp add: lookupAndEscapeTemplate_def Let_def split_def escapeTemplate_fields
            split: option.splits)
    qed
  qed
  show "snd (fst (lookupAndEscapeTemplate s t nm oc)) \<noteq> None"
    if a: "fst (fst (lookupAndEscapeTemplate s t nm oc)) = None"
  proof (cases "registry s t nm")
    case None
    then show ?thesis by (simp add: lookupAndEscapeTemplate_def Let_def)
  next
    case (Some r)
    show ?thesis
    proof (cases "escapeErr (heap s r) \<noteq> None \<and> escapeErr (heap s r) \<noteq> Some escapeOK")
      case True
      with Some show ?thesis by (simp add: lookupAndEscapeTemplate_def Let_def)
    next
      case False
      show ?thesis
      proof (cases "text_Tree (texts (eng s) (textT (heap s r)))")
        case None
        with Some False show ?thesis by (simp add: lookupAndEscapeTemplate_def Let_def)
      next
        case tr: (Some tr)
        show ?thesis
        proof (cases "Root (trees (eng s) tr) = None \<or>
                       text_Lookup (eng s) (textT (heap s t)) nm = None")
          case True
          with Some False tr show ?thesis
            by (auto simp: lookupAndEscapeTemplate_def Let_def)
        next
          case ok: False
          with Some False tr have "fst (fst (lookupAndEscapeTemplate s t nm oc)) = Some r"
            by (auto simp: lookupAndEscapeTemplate_def Let_def split_def)
          with a show ?thesis by simp
        qed
      qed
    qed
  qed
qed

lemma ExecuteTemplate_no_panic:
  assumes y: "sync_ok s" and w: "store_ok s" and t: "t < nextT s"
  shows "fst (ExecuteTemplate s t nm oc res) \<noteq> Some (Panic m)"
proof -
  let ?l = "lookupAndEscapeTemplate s t nm oc"
  note p = lookupAndEscapeTemplate_no_panic[OF y w t, of nm oc]
  show ?thesis
  proof (cases "snd (fst ?l)")
    case (Some err)
    with p(1)[of m] show ?thesis
      by (cases "fst (fst ?l)") (simp_all add: ExecuteTemplate_def split_def)
  next
    case None
    with p(2) obtain r where "fst (fst ?l) = Some r" by (cases "fst (fst ?l)") auto
    with None show ?thesis
      by (cases res) (simp_all add: ExecuteTemplate_def split_def text_Execute_def)
  qed
qed

subsection \<open>The copies a successful \<open>Clone\<close> makes\<close>

lemma copies_okD:
  assumes "copies_ok s ret e0 X"
  shows "set_ns (spaces s (nameSpace (heap s ret))) k = Some q \<Longrightarrow> q \<noteq> ret \<Longrightarrow>
           textT (heap s q) \<in> X \<and>
           text_Tree (texts (eng s) (textT (heap s q))) = Tree (heap s q)"
    and "x \<in> X \<Longrightarrow> text_Tree (texts e0 x) = None \<Longrightarrow> text_Tree (texts (eng s) x) = None"
    and "x \<in> X \<Longrightarrow> text_Tree (texts e0 x) = Some a \<Longrightarrow>
           \<exists>tr. text_Tree (texts (eng s) x) = Some tr \<and> tr < nextTree (eng s) \<and>
                trees (eng s) tr = trees e0 a"
proof -
  from assms show "set_ns (spaces s (nameSpace (heap s ret))) k = Some q \<Longrightarrow> q \<noteq> ret \<Longrightarrow>
           textT (heap s q) \<in> X \<and>
           text_Tree (texts (eng s) (textT (heap s q))) = Tree (heap s q)"
    unfolding copies_ok_def by blast
  from assms have a: "\<forall>x\<in>X. case text_Tree (texts e0 x) of
                None \<Rightarrow> text_Tree (texts (eng s) x) = None
              | Some a \<Rightarrow>
                  (\<exists>tr. text_Tree (texts (eng s) x) = Some tr \<and> tr < nextTree (eng s) \<and>
                        trees (eng s) tr = trees e0 a)"
    unfolding copies_ok_def by (rule conjunct2)
  show "text_Tree (texts (eng s) x) = None" if "x \<in> X" "text_Tree (texts e0 x) = None"
    using a that by (auto split: option.splits)
  show "\<exists>tr. text_Tree (texts (eng s) x) = Some tr \<and> tr < nextTree (eng s) \<and>
                trees (eng s) tr = trees e0 a" if "x \<in> X" "text_Tree (texts e0 x) = Some a"
    using bspec[OF a that(1)] that(2) by simp
qed

lemma Clone_body_copy:
  assumes ok: "Clone_body_ok s t x"
  shows "text_Tree (texts (eng (snd (Clone_body s t ret x))) x)
           = snd (Tree_Copy (eng s) (text_Tree (texts (eng s) x)))"
    "text_Tree (texts (eng s) x) = Some tr \<Longrightarrow>
       snd (Tree_Copy (eng s) (text_Tree (texts (eng s) x))) = Some (nextTree (eng s)) \<and>
       nextTree (eng (snd (Clone_body s t ret x))) = Suc (nextTree (eng s)) \<and>
       trees (eng (snd (Clone_body s t ret x))) (nextTree (eng s)) = trees (eng s) tr"
    "text_Tree (texts (eng s) x) = None \<Longrightarrow>
       snd (Tree_Copy (eng s) (text_Tree (texts (eng s) x))) = None"
  using ok by (simp_all add: Clone_body_eng Tree_Copy_def)

lemma copies_ok_body:
  assumes p: "copies_ok s ret e0 X" and c: "clone_ok s ret T0" and r: "ret < nextT s"
    and ok: "Clone_body_ok s t x" and x: "x \<in> X"
  shows "copies_ok (snd (Clone_body s t ret x)) ret e0 X"
proof -
  let ?s = "snd (Clone_body s t ret x)"
  let ?n = "nameSpace (heap s ret)"
  let ?k = "text_name (texts (eng s) x)"
  let ?cp = "snd (Tree_Copy (eng s) (text_Tree (texts (eng s) x)))"
  from r have ne: "ret \<noteq> nextT s" by simp
  note f = Clone_body_fields[OF ok ne]
  note cp = Clone_body_copy[OF ok]
  have hr: "heap ?s ret = heap s ret" using r by (simp add: Clone_body_old)
  have 1: "textT (heap ?s q) \<in> X \<and>
           text_Tree (texts (eng ?s) (textT (heap ?s q))) = Tree (heap ?s q)"
    if a: "set_ns (spaces ?s ?n) k = Some q" and b: "q \<noteq> ret" for k q
  proof (cases "k = ?k")
    case True
    with a have q: "q = nextT s" by (simp add: f)
    show ?thesis unfolding q by (simp add: f x cp(1))
  next
    case False
    with a have old: "set_ns (spaces s ?n) k = Some q" by (simp add: f)
    note d = clone_okD[OF c old]
    note e = copies_okD(1)[OF p old b]
    from d(3) have h: "heap ?s q = heap s q" by (simp add: Clone_body_old)
    from d(1) False have "textT (heap s q) \<noteq> x" by (auto simp: Name_def)
    from Clone_body_trees(3)[OF this, of s t ret] e show ?thesis by (simp add: h)
  qed
  have 2: "case text_Tree (texts e0 y) of
             None \<Rightarrow> text_Tree (texts (eng ?s) y) = None
           | Some a \<Rightarrow>
               (\<exists>tr. text_Tree (texts (eng ?s) y) = Some tr \<and> tr < nextTree (eng ?s) \<and>
                     trees (eng ?s) tr = trees e0 a)"
    if y: "y \<in> X" for y
  proof (cases "text_Tree (texts e0 y)")
    case None
    note n = copies_okD(2)[OF p y None]
    show ?thesis
    proof (cases "y = x")
      case True
      with n cp(1) cp(3) None show ?thesis by simp
    next
      case False
      from Clone_body_trees(3)[OF False, of s t ret] n None show ?thesis by simp
    qed
  next
    case (Some a)
    from copies_okD(3)[OF p y Some] obtain tr where
      tr: "text_Tree (texts (eng s) y) = Some tr" "tr < nextTree (eng s)"
        "trees (eng s) tr = trees e0 a"
      by blast
    show ?thesis
    proof (cases "y = x")
      case True
      from tr(1) have tx: "text_Tree (texts (eng s) x) = Some tr" unfolding True .
      from cp(2)[OF tx] cp(1) tr(3) Some show ?thesis unfolding True by simp
    next
      case False
      from Clone_body_trees(3)[OF False, of s t ret]
        Clone_body_trees(1)[of s t ret x]
        Clone_body_trees(2)[where s = s and t = t and ret = ret and x = x and y = tr, OF tr(2)]
        tr Some
      show ?thesis by simp
    qed
  qed
  from 1 2 show ?thesis unfolding copies_ok_def hr by blast
qed

lemma copies_ok_loop:
  "copies_ok s ret e0 X \<Longrightarrow> clone_ok s ret T0 \<Longrightarrow> ret < nextT s \<Longrightarrow>
   T0 \<le> nextTree (eng s) \<Longrightarrow> set xs \<subseteq> X \<Longrightarrow> fst (Clone_loop s t ret xs) = None \<Longrightarrow>
     copies_ok (snd (Clone_loop s t ret xs)) ret e0 X"
proof (induction xs arbitrary: s)
  case Nil
  then show ?case by simp
next
  case (Cons x xs)
  let ?s = "snd (Clone_body s t ret x)"
  have ok: "Clone_body_ok s t x"
  proof (rule ccontr)
    assume "\<not> Clone_body_ok s t x"
    with Cons.prems(6) show False unfolding Clone_loop_Cons by (simp add: Clone_body_error)
  qed
  from Cons.prems(3) have ne: "ret \<noteq> nextT s" by simp
  note f = Clone_body_fields[OF ok ne]
  have l: "Clone_loop s t ret (x # xs) = Clone_loop ?s t ret xs"
    unfolding Clone_loop_Cons by (simp add: f)
  from Cons.prems(5) have x: "x \<in> X" and xs: "set xs \<subseteq> X" by simp_all
  have 1: "copies_ok ?s ret e0 X" by (rule copies_ok_body[OF Cons.prems(1,2,3) ok x])
  have 2: "clone_ok ?s ret T0" by (rule clone_ok_body[OF Cons.prems(2,3,4) ok])
  have 3: "ret < nextT ?s" using Cons.prems(3) by (simp add: f)
  have 4: "T0 \<le> nextTree (eng ?s)"
    using Cons.prems(4) Clone_body_trees(1)[of s t ret x] by simp
  have 5: "fst (Clone_loop ?s t ret xs) = None" using Cons.prems(6) by (simp only: l)
  from Cons.IH[OF 1 2 3 4 xs 5] show ?case by (simp only: l)
qed

section \<open>The claims\<close>

lemmas eval_defs =
  run_def step_def is_handle_opt_def is_handle_def init_state_def init_engine_def
  New_def new_def Template_New_def alloc_def set_put_def registry_def Name_def Lookup_def
  text_New_def text_Template_New_def text_Lookup_def Tree_Copy_def checkCanParse_def escapeTemplate_def set_escaped_def escape_def
  text_Execute_def Execute_def lookupAndEscapeTemplate_def ExecuteTemplate_def
  Parse_body_def Parse_def AddParseTree_def Clone_body_def Clone_start_def Clone_def
  parseFiles_def parseGlob_def Template_ParseFiles_def Template_ParseGlob_def
  ex_a_def ex_frozen_def ex_engine_a_def ex_parsed_def ex_failed_def
  ex_engine_b_def ex_engine_b2_def ex_b_def ex_b_done_def ex_engine_clone_def
  ex_engine_bare_def ex_unsafe_def ex_escaped_bare_def Let_def

text \<open>
  Claim C2. In a name space whose \<open>escaped\<close> flag is set, \<open>Parse\<close>, \<open>AddParseTree\<close>,
  \<open>ParseFiles\<close> and \<open>ParseGlob\<close> through any of its Templates return the error
  "cannot Parse after Execute" and leave the whole store as it was, whatever the engine
  and the file system would have answered.
\<close>

theorem definition_after_execution:
  assumes "escaped (spaces s (nameSpace (heap s t)))"
  shows "Parse s t txt ans = (Inl DefinitionAfterExecution, s) \<and>
         AddParseTree s t nm tree ans' = (Inl DefinitionAfterExecution, s) \<and>
         Template_ParseFiles s t files = (Inl DefinitionAfterExecution, s) \<and>
         Template_ParseGlob s t pattern glob = (Inl DefinitionAfterExecution, s)"
  using assms
  by (simp add: Parse_def AddParseTree_def Template_ParseFiles_def Template_ParseGlob_def
      parseFiles_def parseGlob_def checkCanParse_def)

theorem definition_after_execution_witness:
  "escaped (spaces ex_frozen (nameSpace (heap ex_frozen 0))) \<and>
   Parse ex_frozen 0 ''x'' (init_engine, Inr []) = (Inl DefinitionAfterExecution, ex_frozen) \<and>
   AddParseTree ex_frozen 0 ''b'' None (init_engine, Inr 0)
     = (Inl DefinitionAfterExecution, ex_frozen) \<and>
   Template_ParseFiles ex_frozen 0 [] = (Inl DefinitionAfterExecution, ex_frozen) \<and>
   Template_ParseGlob ex_frozen 0 ''*'' (Inr []) = (Inl DefinitionAfterExecution, ex_frozen)"
proof -
  have h: "escaped (spaces ex_frozen (nameSpace (heap ex_frozen 0)))"
    by (simp add: eval_defs)
  from definition_after_execution[OF h] h show ?thesis by blast
qed

text \<open>
  Claim C4. After \<open>Execute\<close> or \<open>ExecuteTemplate\<close> through a Template \<open>t\<close>, whatever the call
  returned (an error included), the \<open>escaped\<close> flag of \<open>t\<close>'s name space is set, so that
  \<open>checkCanParse\<close> refuses every Template \<open>r\<close> of that name space.
\<close>

theorem execution_freezes_name_space:
  "escaped (spaces (snd (Execute s t oc res)) (nameSpace (heap s t))) \<and>
   escaped (spaces (snd (ExecuteTemplate s t nm oc res)) (nameSpace (heap s t))) \<and>
   (nameSpace (heap s r) = nameSpace (heap s t) \<longrightarrow>
      checkCanParse (snd (Execute s t oc res)) (Some r) = Some DefinitionAfterExecution \<and>
      checkCanParse (snd (ExecuteTemplate s t nm oc res)) (Some r)
        = Some DefinitionAfterExecution)"
  by (simp add: checkCanParse_def Execute_frame ExecuteTemplate_frame)

text \<open>
  At \<open>ex_a\<close> both calls fail, \<open>Execute\<close> with "incomplete" and \<open>ExecuteTemplate\<close> of the unknown
  name "zz" with "undefined"; at \<open>ex_parsed\<close> \<open>Execute\<close> fails with the escaper's error. The
  name space is frozen all the same.
\<close>

theorem execution_freezes_name_space_witness:
  "fst (Execute ex_a 0 None None) = Some (IncompleteTemplate ''a'') \<and>
   fst (ExecuteTemplate ex_a 0 ''zz'' None None) = Some (UndefinedTemplate ''zz'') \<and>
   fst (Execute ex_parsed 0 (Some ''bad'') None) = Some (EscapeFailed ''bad'') \<and>
   nameSpace (heap ex_a 0) = nameSpace (heap ex_a 0) \<and>
   escaped (spaces (snd (Execute ex_a 0 None None)) (nameSpace (heap ex_a 0))) \<and>
   escaped (spaces (snd (ExecuteTemplate ex_a 0 ''zz'' None None)) (nameSpace (heap ex_a 0))) \<and>
   escaped (spaces (snd (Execute ex_parsed 0 (Some ''bad'') None)) (nameSpace (heap ex_parsed 0))) \<and>
   checkCanParse (snd (Execute ex_a 0 None None)) (Some 0) = Some DefinitionAfterExecution \<and>
   checkCanParse (snd (ExecuteTemplate ex_a 0 ''zz'' None None)) (Some 0)
     = Some DefinitionAfterExecution"
proof -
  have 1: "fst (Execute ex_a 0 None None) = Some (IncompleteTemplate ''a'')"
    by (simp add: eval_defs)
  have 2: "fst (ExecuteTemplate ex_a 0 ''zz'' None None) = Some (UndefinedTemplate ''zz'')"
    by (simp add: eval_defs)
  have 3: "fst (Execute ex_parsed 0 (Some ''bad'') None) = Some (EscapeFailed ''bad'')"
    by (simp add: eval_defs)
  from execution_freezes_name_space[of ex_a 0 None None "''zz''" 0]
    execution_freezes_name_space[of ex_parsed 0 "Some ''bad''" None "''zz''" 0] 1 2 3
  show ?thesis by simp
qed

text \<open>
  Claim C5. \<open>t.New(name)\<close> has no error result and makes no check of the \<open>escaped\<close> flag: in
  every store reached by public calls, through every handle \<open>t\<close>, it returns a newly
  allocated Template of \<open>t\<close>'s name space and binds the name to it in the registry, and the
  flag of the name space stays as it was (set, if it was set).
\<close>

theorem New_bypasses_check:
  assumes "is_handle (run cs) t"
  shows "fst (Template_New (run cs) t nm) = nextT (run cs) \<and>
         set_ns (spaces (snd (Template_New (run cs) t nm)) (nameSpace (heap (run cs) t))) nm
           = Some (nextT (run cs)) \<and>
         nameSpace (heap (snd (Template_New (run cs) t nm)) (nextT (run cs)))
           = nameSpace (heap (run cs) t) \<and>
         escaped (spaces (snd (Template_New (run cs) t nm)) (nameSpace (heap (run cs) t)))
           = escaped (spaces (run cs) (nameSpace (heap (run cs) t)))"
proof -
  from assms have t: "t < nextT (run cs)" by (simp add: is_handle_def)
  note r = Template_New_result[OF ok_run t, of nm]
  show ?thesis by (simp add: r)
qed

theorem New_bypasses_check_witness:
  "is_handle (run [Op_New ''a'', Op_Execute 0 None None]) 0 \<and>
   checkCanParse ex_frozen (Some 0) = Some DefinitionAfterExecution \<and>
   fst (Template_New ex_frozen 0 ''b'') = 1 \<and>
   set_ns (spaces (snd (Template_New ex_frozen 0 ''b'')) 0) ''b'' = Some 1 \<and>
   escaped (spaces (snd (Template_New ex_frozen 0 ''b'')) 0)"
proof -
  have h: "is_handle (run [Op_New ''a'', Op_Execute 0 None None]) 0"
    by (simp add: eval_defs)
  have e: "run [Op_New ''a'', Op_Execute 0 None None] = ex_frozen"
    by (simp add: ex_frozen_def)
  have v: "nextT ex_frozen = 1" "nameSpace (heap ex_frozen 0) = 0" "escaped (spaces ex_frozen 0)"
    "checkCanParse ex_frozen (Some 0) = Some DefinitionAfterExecution"
    by (simp_all add: eval_defs)
  from New_bypasses_check[OF h, of "''b''"] h v show ?thesis
    unfolding e by simp
qed

text \<open>
  Claim C7, as stated, fails for a Template that holds an escape outcome. At \<open>ex_unsafe\<close>,
  reached by public calls in which the engine answers within what is asked of it, the name
  "a" is registered to the Template 0, which has no tree, nor has its text template, and
  holds the failure "bad": \<open>ExecuteTemplate\<close> of "a" and \<open>Execute\<close> through the Template 0
  return that failure, not "incomplete". At \<open>ex_escaped_bare\<close> the Template 0 is registered,
  its \<open>Tree\<close> is \<open>nil\<close> and it holds a success: \<open>Execute\<close> through it makes no test of the tree,
  calls the engine's \<open>Execute\<close> and returns what that returns.
\<close>

theorem undefined_and_incomplete_counterexample:
  "contract init_state
     [Op_New ''a'', Op_Clone 0 (ex_engine_a, Inl ''failed''),
      Op_ExecuteTemplate 0 ''a'' (Some ''bad'') None, Op_Template_New 0 ''b'',
      Op_Clone 1 (ex_engine_bare, Inl ''failed'')] \<and>
   registry ex_unsafe 0 ''a'' = Some 0 \<and>
   Tree (heap ex_unsafe 0) = None \<and>
   text_Tree (texts (eng ex_unsafe) (textT (heap ex_unsafe 0))) = None \<and>
   escapeErr (heap ex_unsafe 0) = Some (EscapeFailed ''bad'') \<and>
   fst (ExecuteTemplate ex_unsafe 0 ''a'' None None) = Some (EscapeFailed ''bad'') \<and>
   fst (ExecuteTemplate ex_unsafe 0 ''a'' None None) \<noteq> Some (IncompleteTemplate ''a'') \<and>
   fst (Execute ex_unsafe 0 None None) = Some (EscapeFailed ''bad'') \<and>
   fst (Execute ex_unsafe 0 None None) \<noteq> Some (IncompleteTemplate ''a'') \<and>
   registry ex_escaped_bare 0 ''a'' = Some 0 \<and>
   Tree (heap ex_escaped_bare 0) = None \<and>
   escapeErr (heap ex_escaped_bare 0) = Some escapeOK \<and>
   fst (Execute ex_escaped_bare 0 None None) = None \<and>
   executed (snd (Execute ex_escaped_bare 0 None None)) = executed ex_escaped_bare @ [0]"
  by (simp add: eval_defs Clone_answer_ok_def engine_ok_def engine_extends_def
      less_Suc_eq eval_nat_numeral)

text \<open>
  Claim C7, amended. \<open>ExecuteTemplate\<close> of a name that is not in the registry returns
  "undefined". For a registered name whose text template has no tree, or a tree without
  root, \<open>ExecuteTemplate\<close> returns the escape failure the registered Template holds, if it
  holds one, and "incomplete" otherwise. \<open>Execute\<close> through a Template whose \<open>Tree\<close> is \<open>nil\<close>
  returns "incomplete" when the Template holds no escape outcome and the escape failure
  when it holds one. In all these cases the only change to the store is the \<open>escaped\<close> flag,
  and the engine's \<open>Execute\<close> is not called. After a stored success \<open>Execute\<close> makes no test
  of the tree: it calls the engine's \<open>Execute\<close> and returns what that returns.
\<close>

theorem undefined_and_incomplete:
  "(registry s t nm = None \<longrightarrow>
      ExecuteTemplate s t nm oc res = (Some (UndefinedTemplate nm), set_escaped s t)) \<and>
   (registry s t nm = Some r \<and>
    (case text_Tree (texts (eng s) (textT (heap s r))) of
       None \<Rightarrow> True
     | Some tr \<Rightarrow> Root (trees (eng s) tr) = None) \<longrightarrow>
      ExecuteTemplate s t nm oc res =
        (case escapeErr (heap s r) of
           None \<Rightarrow> Some (IncompleteTemplate nm)
         | Some e \<Rightarrow> if e = escapeOK then Some (IncompleteTemplate nm) else Some e,
         set_escaped s t)) \<and>
   (Tree (heap s t) = None \<and> escapeErr (heap s t) \<noteq> Some escapeOK \<longrightarrow>
      Execute s t oc res =
        (case escapeErr (heap s t) of
           None \<Rightarrow> Some (IncompleteTemplate (Name s t))
         | Some e \<Rightarrow> Some e,
         set_escaped s t)) \<and>
   (escapeErr (heap s t) = Some escapeOK \<longrightarrow>
      Execute s t oc res =
        (map_option EngineError res,
         (set_escaped s t)\<lparr>executed := executed s @ [textT (heap s t)]\<rparr>)) \<and>
   executed (set_escaped s t) = executed s"
  by (auto simp: ExecuteTemplate_def lookupAndEscapeTemplate_def Execute_def escape_def Let_def
      text_Execute_def split: option.splits)

text \<open>
  At \<open>ex_a\<close> the name "zz" is not registered, and "a" is registered to the Template 0, which
  has no tree and no outcome. At \<open>ex_unsafe\<close> the Template 0 has no tree and holds the
  failure "bad". At \<open>ex_escaped_bare\<close> it holds a success.
\<close>

theorem undefined_and_incomplete_witness:
  "registry ex_a 0 ''zz'' = None \<and>
   ExecuteTemplate ex_a 0 ''zz'' None None
     = (Some (UndefinedTemplate ''zz''), set_escaped ex_a 0) \<and>
   registry ex_a 0 ''a'' = Some 0 \<and> escapeErr (heap ex_a 0) = None \<and>
   text_Tree (texts (eng ex_a) (textT (heap ex_a 0))) = None \<and>
   ExecuteTemplate ex_a 0 ''a'' None None
     = (Some (IncompleteTemplate ''a''), set_escaped ex_a 0) \<and>
   Tree (heap ex_a 0) = None \<and>
   Execute ex_a 0 None None = (Some (IncompleteTemplate ''a''), set_escaped ex_a 0) \<and>
   executed (set_escaped ex_a 0) = [] \<and>
   registry ex_unsafe 0 ''a'' = Some 0 \<and>
   escapeErr (heap ex_unsafe 0) = Some (EscapeFailed ''bad'') \<and>
   text_Tree (texts (eng ex_unsafe) (textT (heap ex_unsafe 0))) = None \<and>
   Tree (heap ex_unsafe 0) = None \<and>
   ExecuteTemplate ex_unsafe 0 ''a'' None None
     = (Some (EscapeFailed ''bad''), set_escaped ex_unsafe 0) \<and>
   Execute ex_unsafe 0 None None = (Some (EscapeFailed ''bad''), set_escaped ex_unsafe 0) \<and>
   escapeErr (heap ex_escaped_bare 0) = Some escapeOK \<and>
   textT (heap ex_escaped_bare 0) = 0 \<and>
   Execute ex_escaped_bare 0 None (Some ''oops'')
     = (Some (EngineError ''oops''),
        (set_escaped ex_escaped_bare 0)\<lparr>executed := executed ex_escaped_bare @ [0]\<rparr>)"
proof -
  have h: "registry ex_a 0 ''zz'' = None" "registry ex_a 0 ''a'' = Some 0"
    "escapeErr (heap ex_a 0) = None" "text_Tree (texts (eng ex_a) (textT (heap ex_a 0))) = None"
    "Tree (heap ex_a 0) = None" "Name ex_a 0 = ''a''" "executed ex_a = []"
    by (simp_all add: eval_defs)
  have g: "registry ex_unsafe 0 ''a'' = Some 0"
    "escapeErr (heap ex_unsafe 0) = Some (EscapeFailed ''bad'')"
    "text_Tree (texts (eng ex_unsafe) (textT (heap ex_unsafe 0))) = None"
    "Tree (heap ex_unsafe 0) = None"
    "escapeErr (heap ex_escaped_bare 0) = Some escapeOK"
    "textT (heap ex_escaped_bare 0) = 0"
    by (simp_all add: eval_defs)
  from undefined_and_incomplete[of ex_a 0 "''zz''" None None 0]
    undefined_and_incomplete[of ex_a 0 "''a''" None None 0]
    undefined_and_incomplete[of ex_unsafe 0 "''a''" None None 0]
    undefined_and_incomplete[of ex_escaped_bare 0 "''a''" None "Some ''oops''" 0] h g
  show ?thesis by simp
qed

text \<open>
  Claim C3. In every store reached by public calls the recorded invocations of the escape
  transform have pairwise different targets: no Template is escaped twice. Once a Template
  holds an outcome, \<open>Execute\<close> through it and \<open>ExecuteTemplate\<close> of its name record no
  invocation and change no Template; a stored error is what the call returns, and after
  a stored success the call goes on to the engine (for \<open>ExecuteTemplate\<close>, when the tree is
  there and the engine knows the name). The outcome a Template \<open>q\<close> holds stays through
  every \<open>Parse\<close>, \<open>AddParseTree\<close>, \<open>Clone\<close>, \<open>Execute\<close> and \<open>ExecuteTemplate\<close>, and through every
  \<open>New\<close> other than the one that overwrites \<open>q\<close> itself, which ends the life of \<open>q\<close> as that
  Template and leaves it an empty one.
\<close>

theorem escaped_at_most_once:
  "distinct (map fst (escapeCalls (run cs))) \<and>
   (escapeErr (heap s t) = Some e \<longrightarrow>
      escapeCalls (snd (Execute s t oc res)) = escapeCalls s \<and>
      heap (snd (Execute s t oc res)) = heap s \<and>
      fst (Execute s t oc res) = (if e = escapeOK then map_option EngineError res else Some e)) \<and>
   (registry s t nm = Some r \<and> escapeErr (heap s r) = Some e \<longrightarrow>
      escapeCalls (snd (ExecuteTemplate s t nm oc res)) = escapeCalls s \<and>
      heap (snd (ExecuteTemplate s t nm oc res)) = heap s \<and>
      (e \<noteq> escapeOK \<longrightarrow> fst (ExecuteTemplate s t nm oc res) = Some e) \<and>
      (e = escapeOK \<and> text_Lookup (eng s) (textT (heap s t)) nm \<noteq> None \<and>
       (case text_Tree (texts (eng s) (textT (heap s r))) of
          None \<Rightarrow> False
        | Some tr \<Rightarrow> Root (trees (eng s) tr) \<noteq> None) \<longrightarrow>
         fst (ExecuteTemplate s t nm oc res) = map_option EngineError res)) \<and>
   (is_handle (run cs) h \<and> q < nextT (run cs) \<and> escapeErr (heap (run cs) q) = Some e \<longrightarrow>
      escapeErr (heap (snd (Parse (run cs) h txt ans)) q) = Some e \<and>
      escapeErr (heap (snd (AddParseTree (run cs) h nm tree ans')) q) = Some e \<and>
      escapeErr (heap (snd (Clone (run cs) h ans'')) q) = Some e \<and>
      escapeErr (heap (snd (Execute (run cs) h oc res)) q) = Some e \<and>
      escapeErr (heap (snd (ExecuteTemplate (run cs) h nm oc res)) q) = Some e \<and>
      (registry (run cs) h nm \<noteq> Some q \<longrightarrow>
         escapeErr (heap (snd (Template_New (run cs) h nm)) q) = Some e))"
proof -
  have 1: "distinct (map fst (escapeCalls (run cs)))"
    by (rule once_distinct[OF once_run])
  have 2: "escapeErr (heap s t) = Some e \<longrightarrow>
      escapeCalls (snd (Execute s t oc res)) = escapeCalls s \<and>
      heap (snd (Execute s t oc res)) = heap s \<and>
      fst (Execute s t oc res) = (if e = escapeOK then map_option EngineError res else Some e)"
    by (auto simp: Execute_def escape_def text_Execute_def Let_def split: option.splits)
  have 3: "registry s t nm = Some r \<and> escapeErr (heap s r) = Some e \<longrightarrow>
      escapeCalls (snd (ExecuteTemplate s t nm oc res)) = escapeCalls s \<and>
      heap (snd (ExecuteTemplate s t nm oc res)) = heap s \<and>
      (e \<noteq> escapeOK \<longrightarrow> fst (ExecuteTemplate s t nm oc res) = Some e) \<and>
      (e = escapeOK \<and> text_Lookup (eng s) (textT (heap s t)) nm \<noteq> None \<and>
       (case text_Tree (texts (eng s) (textT (heap s r))) of
          None \<Rightarrow> False
        | Some tr \<Rightarrow> Root (trees (eng s) tr) \<noteq> None) \<longrightarrow>
         fst (ExecuteTemplate s t nm oc res) = map_option EngineError res)"
    by (auto simp: text_Execute_def ExecuteTemplate_def lookupAndEscapeTemplate_def Let_def
        split: option.splits)
  have 4: "escapeErr (heap (snd (Parse (run cs) h txt ans)) q) = Some e \<and>
      escapeErr (heap (snd (AddParseTree (run cs) h nm tree ans')) q) = Some e \<and>
      escapeErr (heap (snd (Clone (run cs) h ans'')) q) = Some e \<and>
      escapeErr (heap (snd (Execute (run cs) h oc res)) q) = Some e \<and>
      escapeErr (heap (snd (ExecuteTemplate (run cs) h nm oc res)) q) = Some e \<and>
      (registry (run cs) h nm \<noteq> Some q \<longrightarrow>
         escapeErr (heap (snd (Template_New (run cs) h nm)) q) = Some e)"
    if a: "is_handle (run cs) h" "q < nextT (run cs)" "escapeErr (heap (run cs) q) = Some e"
  proof -
    from a(1) have h: "h < nextT (run cs)" by (simp add: is_handle_def)
    from Parse_old[OF ok_run h a(2), of "txt" ans] a(3)
    have "escapeErr (heap (snd (Parse (run cs) h txt ans)) q) = Some e" by simp
    moreover have "registry (run cs) h nm \<noteq> Some q \<longrightarrow>
         escapeErr (heap (snd (Template_New (run cs) h nm)) q) = Some e"
      using new_old[OF ok_run h a(2), of nm] a(3) by (simp add: Template_New_def)
    ultimately show ?thesis
      using a by (simp add: AddParseTree_old Clone_old Execute_old ExecuteTemplate_old)
  qed
  from 1 2 3 4 show ?thesis by blast
qed

text \<open>
  At \<open>ex_failed\<close> the Template 0 holds the failure "bad" of its one escape; a second
  \<open>Execute\<close> and an \<open>ExecuteTemplate\<close> of "a", with an escaper that would now succeed, return
  that failure and record nothing.
\<close>

theorem escaped_at_most_once_witness:
  "escapeErr (heap ex_failed 0) = Some (EscapeFailed ''bad'') \<and>
   registry ex_failed 0 ''a'' = Some 0 \<and>
   escapeCalls ex_failed = [(0, ''a'')] \<and>
   is_handle ex_failed 0 \<and>
   distinct (map fst (escapeCalls ex_failed)) \<and>
   escapeCalls (snd (Execute ex_failed 0 None None)) = [(0, ''a'')] \<and>
   fst (Execute ex_failed 0 None None) = Some (EscapeFailed ''bad'') \<and>
   escapeCalls (snd (ExecuteTemplate ex_failed 0 ''a'' None None)) = [(0, ''a'')] \<and>
   fst (ExecuteTemplate ex_failed 0 ''a'' None None) = Some (EscapeFailed ''bad'') \<and>
   escapeErr (heap (snd (Clone ex_failed 0 (ex_engine_a, Inr (1, [1])))) 0)
     = Some (EscapeFailed ''bad'')"
proof -
  have e: "run [Op_New ''a'', Op_Parse 0 ''x'' (ex_engine_a, Inr [0]),
                Op_Execute 0 (Some ''bad'') None] = ex_failed"
    by (simp add: ex_failed_def)
  have h: "escapeErr (heap ex_failed 0) = Some (EscapeFailed ''bad'')"
    "registry ex_failed 0 ''a'' = Some 0" "escapeCalls ex_failed = [(0, ''a'')]"
    "is_handle ex_failed 0" "nextT ex_failed = 1"
    by (simp_all add: eval_defs)
  from escaped_at_most_once[of "[Op_New ''a'', Op_Parse 0 ''x'' (ex_engine_a, Inr [0]),
      Op_Execute 0 (Some ''bad'') None]"
      ex_failed 0 "EscapeFailed ''bad''" None None "''a''" 0 0 0 "''x''"
      "(ex_engine_a, Inr [0])" None "(ex_engine_a, Inr 0)" "(ex_engine_a, Inr (1, [1]))"] h
  show ?thesis unfolding e by simp
qed

text \<open>
  Claim C1, as stated, fails. \<open>New\<close> of a name in use binds the registry entry to a newly
  allocated Template: at \<open>ex_a\<close> the entry of "a" is the Template 0, after \<open>New("a")\<close> it is
  not. \<open>AddParseTree\<close> of a name in use does the same and leaves the Template that was
  registered untouched: at \<open>ex_b\<close> the entry of "b" is the Template 1 with the tree 0; after
  \<open>AddParseTree("b", tree 1)\<close> the entry is the new Template 2 with the tree 1, and the
  Template 1 still holds the tree 0.
\<close>

theorem redefinition_counterexample:
  "registry ex_a 0 ''a'' = Some 0 \<and> \<not> escaped (spaces ex_a (nameSpace (heap ex_a 0))) \<and>
   set_ns (spaces (snd (Template_New ex_a 0 ''a'')) (nameSpace (heap ex_a 0))) ''a'' \<noteq> Some 0 \<and>
   registry ex_b 0 ''b'' = Some 1 \<and> \<not> escaped (spaces ex_b (nameSpace (heap ex_b 0))) \<and>
   Tree (heap ex_b 1) = Some 0 \<and>
   fst (AddParseTree ex_b 0 ''b'' (Some 1) (ex_engine_b2, Inr 2)) = Inr 2 \<and>
   set_ns (spaces (snd (AddParseTree ex_b 0 ''b'' (Some 1) (ex_engine_b2, Inr 2)))
             (nameSpace (heap ex_b 0))) ''b'' \<noteq> Some 1 \<and>
   Tree (heap (snd (AddParseTree ex_b 0 ''b'' (Some 1) (ex_engine_b2, Inr 2))) 1) = Some 0 \<and>
   Tree (heap (snd (AddParseTree ex_b 0 ''b'' (Some 1) (ex_engine_b2, Inr 2))) 2) = Some 1"
  by (simp add: eval_defs)

text \<open>
  Claim C1, amended. In a store reached by public calls, through a handle \<open>t\<close> of a name
  space that is not frozen, for a name \<open>nm\<close> registered to the Template \<open>r\<close>:
  \<^item> \<open>Parse\<close>, when the engine associates the text template \<open>v\<close> with that name (the names
    the engine lists being pairwise different), keeps the entry bound to \<open>r\<close> and writes
    \<open>v\<close> and its tree into \<open>r\<close> in place, leaving the escape outcome of \<open>r\<close> as it is;
  \<^item> \<open>New\<close> overwrites \<open>r\<close> in place with an empty Template (no tree, outcome unresolved)
    and binds the entry to a newly allocated empty Template;
  \<^item> \<open>AddParseTree\<close> binds the entry to a newly allocated Template that holds the engine's
    text template and its tree, with outcome unresolved.
\<close>

theorem redefinition_in_place:
  assumes "is_handle (run cs) t"
    and "\<not> escaped (spaces (run cs) (nameSpace (heap (run cs) t)))"
    and "registry (run cs) t nm = Some r"
  shows
   "((\<forall>x\<in>set vs. x < nextText e) \<and> distinct (map (\<lambda>x. text_name (texts e x)) vs) \<and>
     v \<in> set vs \<and> text_name (texts e v) = nm \<longrightarrow>
       fst (Parse (run cs) t txt (e, Inr vs)) = Inr t \<and>
       set_ns (spaces (snd (Parse (run cs) t txt (e, Inr vs))) (nameSpace (heap (run cs) t))) nm
         = Some r \<and>
       textT (heap (snd (Parse (run cs) t txt (e, Inr vs))) r) = v \<and>
       Tree (heap (snd (Parse (run cs) t txt (e, Inr vs))) r) = text_Tree (texts e v) \<and>
       escapeErr (heap (snd (Parse (run cs) t txt (e, Inr vs))) r)
         = escapeErr (heap (run cs) r)) \<and>
    Tree (heap (snd (Template_New (run cs) t nm)) r) = None \<and>
    escapeErr (heap (snd (Template_New (run cs) t nm)) r) = None \<and>
    set_ns (spaces (snd (Template_New (run cs) t nm)) (nameSpace (heap (run cs) t))) nm
      = Some (nextT (run cs)) \<and>
    Tree (heap (snd (Template_New (run cs) t nm)) (nextT (run cs))) = None \<and>
    escapeErr (heap (snd (Template_New (run cs) t nm)) (nextT (run cs))) = None \<and>
    fst (AddParseTree (run cs) t nm tree (e', Inr tx)) = Inr (nextT (run cs)) \<and>
    set_ns (spaces (snd (AddParseTree (run cs) t nm tree (e', Inr tx)))
              (nameSpace (heap (run cs) t))) nm = Some (nextT (run cs)) \<and>
    heap (snd (AddParseTree (run cs) t nm tree (e', Inr tx))) (nextT (run cs)) =
      \<lparr>escapeErr = None, textT = tx, Tree = text_Tree (texts e' tx),
       nameSpace = nameSpace (heap (run cs) t)\<rparr> \<and>
    r < nextT (run cs)"
proof -
  let ?s = "run cs"
  have w: "store_ok ?s" by (rule ok_run)
  from assms(1) have t: "t < nextT ?s" by (simp add: is_handle_def)
  from t have ne: "t \<noteq> nextT ?s" by simp
  note n = Template_New_result[OF w t, of nm]
  note a = AddParseTree_fields[OF assms(2) ne, of nm tree e' tx]
  have d: "heap (snd (Template_New ?s t nm)) r =
             \<lparr>escapeErr = None, textT = Suc (nextText (eng ?s)), Tree = None,
              nameSpace = nextNs ?s\<rparr>"
    unfolding Template_New_def by (rule new_displaced[OF w t assms(3)])
  have p: "fst (Parse ?s t txt (e, Inr vs)) = Inr t \<and>
       set_ns (spaces (snd (Parse ?s t txt (e, Inr vs))) (nameSpace (heap ?s t))) nm = Some r \<and>
       textT (heap (snd (Parse ?s t txt (e, Inr vs))) r) = v \<and>
       Tree (heap (snd (Parse ?s t txt (e, Inr vs))) r) = text_Tree (texts e v) \<and>
       escapeErr (heap (snd (Parse ?s t txt (e, Inr vs))) r) = escapeErr (heap ?s r)"
    if h: "\<forall>x\<in>set vs. x < nextText e" "distinct (map (\<lambda>x. text_name (texts e x)) vs)"
      "v \<in> set vs" "text_name (texts e v) = nm"
    using Parse_result[OF w t assms(2) h(1,2,3), of "txt"] assms(3) h(4) by auto
  from ok_registry[OF w assms(3)] have "r < nextT ?s" by simp
  with p n a d show ?thesis by simp
qed

text \<open>
  At \<open>ex_parsed\<close> the name "a" is registered to the Template 0 with the tree 0. A \<open>Parse\<close>
  for which the engine gives the text template 0 a new tree 1 leaves the entry at the
  Template 0, which then holds the tree 1.
\<close>

theorem redefinition_in_place_witness:
  "is_handle (run [Op_New ''a'', Op_Parse 0 ''x'' (ex_engine_a, Inr [0])]) 0 \<and>
   \<not> escaped (spaces ex_parsed (nameSpace (heap ex_parsed 0))) \<and>
   registry ex_parsed 0 ''a'' = Some 0 \<and> Tree (heap ex_parsed 0) = Some 0 \<and>
   fst (Parse ex_parsed 0 ''y''
         (ex_engine_a\<lparr>texts := (texts ex_engine_a)(0 := \<lparr>text_name = ''a'', text_Tree = Some 1, text_common = 0\<rparr>),
                       nextTree := 2\<rparr>, Inr [0])) = Inr 0 \<and>
   set_ns (spaces (snd (Parse ex_parsed 0 ''y''
         (ex_engine_a\<lparr>texts := (texts ex_engine_a)(0 := \<lparr>text_name = ''a'', text_Tree = Some 1, text_common = 0\<rparr>),
                       nextTree := 2\<rparr>, Inr [0]))) 0) ''a'' = Some 0 \<and>
   Tree (heap (snd (Parse ex_parsed 0 ''y''
         (ex_engine_a\<lparr>texts := (texts ex_engine_a)(0 := \<lparr>text_name = ''a'', text_Tree = Some 1, text_common = 0\<rparr>),
                       nextTree := 2\<rparr>, Inr [0]))) 0) = Some 1 \<and>
   Tree (heap (snd (Template_New ex_parsed 0 ''a'')) 0) = None \<and>
   set_ns (spaces (snd (Template_New ex_parsed 0 ''a'')) 0) ''a'' = Some 1 \<and>
   set_ns (spaces (snd (AddParseTree ex_parsed 0 ''a'' (Some 0) (ex_engine_a, Inr 0))) 0) ''a''
     = Some 1"
proof -
  let ?e = "ex_engine_a\<lparr>texts := (texts ex_engine_a)(0 := \<lparr>text_name = ''a'', text_Tree = Some 1, text_common = 0\<rparr>),
                         nextTree := 2\<rparr>"
  have e: "run [Op_New ''a'', Op_Parse 0 ''x'' (ex_engine_a, Inr [0])] = ex_parsed"
    by (simp add: ex_parsed_def)
  have h: "is_handle (run [Op_New ''a'', Op_Parse 0 ''x'' (ex_engine_a, Inr [0])]) 0"
    "\<not> escaped (spaces (run [Op_New ''a'', Op_Parse 0 ''x'' (ex_engine_a, Inr [0])])
         (nameSpace (heap (run [Op_New ''a'', Op_Parse 0 ''x'' (ex_engine_a, Inr [0])]) 0)))"
    "registry (run [Op_New ''a'', Op_Parse 0 ''x'' (ex_engine_a, Inr [0])]) 0 ''a'' = Some 0"
    by (simp_all add: eval_defs)
  have v: "nameSpace (heap ex_parsed 0) = 0" "nextT ex_parsed = 1" "Tree (heap ex_parsed 0) = Some 0"
    by (simp_all add: eval_defs)
  have g: "(\<forall>x\<in>set [0]. x < nextText ?e) \<and> distinct (map (\<lambda>x. text_name (texts ?e x)) [0]) \<and>
     (0::nat) \<in> set [0] \<and> text_name (texts ?e 0) = ''a''" "text_Tree (texts ?e 0) = Some 1"
    by (simp_all add: ex_engine_a_def)
  from redefinition_in_place[OF h, of "[0]" ?e 0 "''y''" "Some 0" ex_engine_a 0] h g v
  show ?thesis unfolding e by simp
qed

text \<open>
  Claim C6, as stated, fails: \<open>New\<close> of a name in use changes the name-space reference of
  the Template that held the name. At \<open>ex_a\<close> the Template 0 belongs to the name space 0;
  after \<open>New("a")\<close> through it, it belongs to the name space 1.
\<close>

theorem name_space_reference_counterexample:
  "is_handle ex_a 0 \<and> nameSpace (heap ex_a 0) = 0 \<and>
   nameSpace (heap (snd (Template_New ex_a 0 ''a'')) 0) = 1"
  by (simp add: eval_defs)

text \<open>
  Claim C6, amended. In a store reached by public calls, for a handle \<open>t\<close> and an allocated
  Template \<open>r\<close>: \<open>Parse\<close>, \<open>AddParseTree\<close>, \<open>Clone\<close>, \<open>Execute\<close> and \<open>ExecuteTemplate\<close> leave the
  name-space reference of \<open>r\<close> as it is; \<open>New\<close> of a name changes it only when \<open>r\<close> is the
  Template registered under that name, which then refers to a name space allocated by the
  call. After \<open>New\<close> the entry of the name is the Template returned; after a successful
  \<open>AddParseTree\<close> it is the Template returned, which holds the engine's text template;
  after a successful \<open>Parse\<close> the entry of each name the engine lists (the names being
  pairwise different) is a Template that holds the text template of that name and its
  tree.
\<close>

theorem name_space_reference:
  assumes "is_handle (run cs) t" and "r < nextT (run cs)"
  shows
   "nameSpace (heap (snd (Parse (run cs) t txt ans)) r) = nameSpace (heap (run cs) r) \<and>
    nameSpace (heap (snd (AddParseTree (run cs) t nm tree ans')) r) = nameSpace (heap (run cs) r) \<and>
    nameSpace (heap (snd (Clone (run cs) t ans'')) r) = nameSpace (heap (run cs) r) \<and>
    nameSpace (heap (snd (Execute (run cs) t oc res)) r) = nameSpace (heap (run cs) r) \<and>
    nameSpace (heap (snd (ExecuteTemplate (run cs) t nm oc res)) r)
      = nameSpace (heap (run cs) r) \<and>
    nameSpace (heap (snd (Template_New (run cs) t nm)) r) =
      (if registry (run cs) t nm = Some r then nextNs (run cs)
       else nameSpace (heap (run cs) r)) \<and>
    nameSpace (heap (run cs) r) < nextNs (run cs) \<and>
    set_ns (spaces (snd (Template_New (run cs) t nm)) (nameSpace (heap (run cs) t))) nm
      = Some (fst (Template_New (run cs) t nm)) \<and>
    (\<not> escaped (spaces (run cs) (nameSpace (heap (run cs) t))) \<longrightarrow>
       fst (AddParseTree (run cs) t nm tree (e, Inr tx)) = Inr (nextT (run cs)) \<and>
       set_ns (spaces (snd (AddParseTree (run cs) t nm tree (e, Inr tx)))
                 (nameSpace (heap (run cs) t))) nm = Some (nextT (run cs)) \<and>
       textT (heap (snd (AddParseTree (run cs) t nm tree (e, Inr tx))) (nextT (run cs))) = tx) \<and>
    (\<not> escaped (spaces (run cs) (nameSpace (heap (run cs) t))) \<and>
     (\<forall>x\<in>set vs. x < nextText e) \<and> distinct (map (\<lambda>x. text_name (texts e x)) vs) \<and>
     v \<in> set vs \<longrightarrow>
       fst (Parse (run cs) t txt (e, Inr vs)) = Inr t \<and>
       (\<exists>q. set_ns (spaces (snd (Parse (run cs) t txt (e, Inr vs))) (nameSpace (heap (run cs) t)))
               (text_name (texts e v)) = Some q \<and>
            textT (heap (snd (Parse (run cs) t txt (e, Inr vs))) q) = v \<and>
            Tree (heap (snd (Parse (run cs) t txt (e, Inr vs))) q) = text_Tree (texts e v)))"
proof -
  let ?s = "run cs"
  have w: "store_ok ?s" by (rule ok_run)
  from assms(1) have t: "t < nextT ?s" by (simp add: is_handle_def)
  from t have ne: "t \<noteq> nextT ?s" by simp
  note r = assms(2)
  have p: "fst (Parse ?s t txt (e, Inr vs)) = Inr t \<and>
       (\<exists>q. set_ns (spaces (snd (Parse ?s t txt (e, Inr vs))) (nameSpace (heap ?s t)))
               (text_name (texts e v)) = Some q \<and>
            textT (heap (snd (Parse ?s t txt (e, Inr vs))) q) = v \<and>
            Tree (heap (snd (Parse ?s t txt (e, Inr vs))) q) = text_Tree (texts e v))"
    if h: "\<not> escaped (spaces ?s (nameSpace (heap ?s t)))" "\<forall>x\<in>set vs. x < nextText e"
      "distinct (map (\<lambda>x. text_name (texts e x)) vs)" "v \<in> set vs"
    using Parse_result[OF w t h, of "txt"] by blast
  have a: "fst (AddParseTree ?s t nm tree (e, Inr tx)) = Inr (nextT ?s) \<and>
       set_ns (spaces (snd (AddParseTree ?s t nm tree (e, Inr tx))) (nameSpace (heap ?s t))) nm
         = Some (nextT ?s) \<and>
       textT (heap (snd (AddParseTree ?s t nm tree (e, Inr tx))) (nextT ?s)) = tx"
    if h: "\<not> escaped (spaces ?s (nameSpace (heap ?s t)))"
    by (simp add: AddParseTree_fields[OF h ne])
  from Parse_old[OF w t r, of "txt" ans] Template_New_nameSpace[OF w t r, of nm]
    Template_New_result(1,2)[OF w t, of nm] ok_ns[OF w r] p a
  show ?thesis
    by (simp add: AddParseTree_old[OF r] Clone_old[OF r] Execute_frame ExecuteTemplate_frame)
qed

theorem name_space_reference_witness:
  "is_handle (run [Op_New ''a'', Op_AddParseTree 0 ''b'' (Some 0) (ex_engine_b, Inr 1)]) 0 \<and>
   (1::nat) < nextT (run [Op_New ''a'', Op_AddParseTree 0 ''b'' (Some 0) (ex_engine_b, Inr 1)]) \<and>
   nameSpace (heap ex_b 1) = 0 \<and> nextNs ex_b = 1 \<and>
   registry ex_b 0 ''b'' = Some 1 \<and> registry ex_b 0 ''a'' = Some 0 \<and>
   nameSpace (heap (snd (Parse ex_b 0 ''y'' (ex_engine_b, Inr [0, 1]))) 1) = 0 \<and>
   nameSpace (heap (snd (AddParseTree ex_b 0 ''b'' (Some 1) (ex_engine_b2, Inr 2))) 1) = 0 \<and>
   nameSpace (heap (snd (Clone ex_b 0 (ex_engine_b, Inr (0, [])))) 1) = 0 \<and>
   nameSpace (heap (snd (Execute ex_b 0 None None)) 1) = 0 \<and>
   nameSpace (heap (snd (ExecuteTemplate ex_b 0 ''b'' None None)) 1) = 0 \<and>
   nameSpace (heap (snd (Template_New ex_b 0 ''a'')) 1) = 0 \<and>
   nameSpace (heap (snd (Template_New ex_b 0 ''b'')) 1) = 1 \<and>
   set_ns (spaces (snd (Template_New ex_b 0 ''b'')) 0) ''b''
     = Some (fst (Template_New ex_b 0 ''b''))"
proof -
  have e: "run [Op_New ''a'', Op_AddParseTree 0 ''b'' (Some 0) (ex_engine_b, Inr 1)] = ex_b"
    by (simp add: ex_b_def)
  have h: "is_handle ex_b 0" "(1::nat) < nextT ex_b"
    by (simp_all add: eval_defs)
  have v: "nameSpace (heap ex_b 1) = 0" "nextNs ex_b = 1" "nameSpace (heap ex_b 0) = 0"
    "registry ex_b 0 ''b'' = Some 1" "registry ex_b 0 ''a'' = Some 0"
    by (simp_all add: eval_defs)
  from name_space_reference[OF h[folded e], of "''y''" "(ex_engine_b, Inr [0, 1])" "''b''" "Some 1"
      "(ex_engine_b2, Inr 2)" "(ex_engine_b, Inr (0, []))" None None]
    name_space_reference[OF h[folded e], of "''y''" "(ex_engine_b, Inr [0, 1])" "''a''" "Some 1"
      "(ex_engine_b2, Inr 2)" "(ex_engine_b, Inr (0, []))" None None]
    h v
  show ?thesis unfolding e by simp
qed

text \<open>
  Claim C8. In a store reached by public calls, \<open>Clone\<close> through a handle \<open>t\<close> returns the
  error "cannot Clone ... after it has executed" and no Template when \<open>t\<close> itself holds an
  escape outcome, and also when a Template registered in \<open>t\<close>'s name space holds one, the
  engine's own clone has succeeded and it lists a text template of that name. The engine
  does list it: when it has answered all along as \<open>text/template\<close> does and its clone lists
  every name defined in the association of \<open>t\<close>'s text, the error is returned for every
  Template registered in \<open>t\<close>'s name space that holds an outcome. The error names \<open>t\<close>, by
  its name before or after the engine's clone. Every Template and every name space that
  existed is left as it was.
\<close>

theorem clone_after_execution:
  assumes "is_handle (run cs) t"
  shows
   "(escapeErr (heap (run cs) t) \<noteq> None \<longrightarrow>
       Clone (run cs) t ans = (Inl (CloneAfterExecution (Name (run cs) t)), run cs)) \<and>
    (registry (run cs) t nm = Some r \<and> escapeErr (heap (run cs) r) \<noteq> None \<and>
     nm \<in> (\<lambda>x. text_name (texts e x)) ` set xs \<longrightarrow>
       fst (Clone (run cs) t (e, Inr (tc, xs))) = Inl (CloneAfterExecution (Name (run cs) t)) \<or>
       fst (Clone (run cs) t (e, Inr (tc, xs)))
         = Inl (CloneAfterExecution (Name ((run cs)\<lparr>eng := e\<rparr>) t))) \<and>
    (contract init_state cs \<and>
     (\<forall>k. text_Lookup (eng (run cs)) (textT (heap (run cs) t)) k \<noteq> None \<longrightarrow>
          k \<in> (\<lambda>x. text_name (texts e x)) ` set xs) \<and>
     registry (run cs) t nm = Some r \<and> escapeErr (heap (run cs) r) \<noteq> None \<longrightarrow>
       fst (Clone (run cs) t (e, Inr (tc, xs))) = Inl (CloneAfterExecution (Name (run cs) t)) \<or>
       fst (Clone (run cs) t (e, Inr (tc, xs)))
         = Inl (CloneAfterExecution (Name ((run cs)\<lparr>eng := e\<rparr>) t))) \<and>
    (q < nextT (run cs) \<longrightarrow> heap (snd (Clone (run cs) t ans)) q = heap (run cs) q) \<and>
    (ns < nextNs (run cs) \<longrightarrow> spaces (snd (Clone (run cs) t ans)) ns = spaces (run cs) ns)"
proof -
  let ?s = "run cs"
  have w: "store_ok ?s" by (rule ok_run)
  from assms have t: "t < nextT ?s" by (simp add: is_handle_def)
  have 1: "escapeErr (heap ?s t) \<noteq> None \<longrightarrow>
       Clone ?s t ans = (Inl (CloneAfterExecution (Name ?s t)), ?s)"
    by (simp add: Clone_def)
  have 2: "fst (Clone ?s t (e, Inr (tc, xs))) = Inl (CloneAfterExecution (Name ?s t)) \<or>
       fst (Clone ?s t (e, Inr (tc, xs))) = Inl (CloneAfterExecution (Name (?s\<lparr>eng := e\<rparr>) t))"
    if h: "registry ?s t nm = Some r" "escapeErr (heap ?s r) \<noteq> None"
      "nm \<in> (\<lambda>x. text_name (texts e x)) ` set xs"
  proof (cases "escapeErr (heap ?s t) = None")
    case True
    from Clone_fails[OF w t h True] show ?thesis by simp
  next
    case False
    then show ?thesis by (simp add: Clone_def)
  qed
  have 3: "nm \<in> (\<lambda>x. text_name (texts e x)) ` set xs"
    if c: "contract init_state cs"
      and ls: "\<forall>k. text_Lookup (eng ?s) (textT (heap ?s t)) k \<noteq> None \<longrightarrow>
                   k \<in> (\<lambda>x. text_name (texts e x)) ` set xs"
      and h: "registry ?s t nm = Some r" "escapeErr (heap ?s r) \<noteq> None"
  proof -
    have y: "sync_ok ?s" by (rule sync_run[OF c])
    from h(1) have a: "set_ns (spaces ?s (nameSpace (heap ?s t))) nm = Some r"
      by (simp add: registry_def)
    from ok_reg[OF w a] have r: "r < nextT ?s" "nameSpace (heap ?s r) = nameSpace (heap ?s t)"
      by simp_all
    from sync_out[OF y a h(2)] sync_common[OF y r(1) t r(2)]
    have "text_Lookup (eng ?s) (textT (heap ?s t)) nm \<noteq> None"
      by (simp add: text_Lookup_def)
    with ls show ?thesis by blast
  qed
  from 1 2 3 show ?thesis by (simp add: Clone_old Clone_spaces_old)
qed

text \<open>
  At \<open>ex_failed\<close> the receiver itself holds a failure. At \<open>ex_b_done\<close> the receiver 0 holds no
  outcome, the Template 1 registered as "b" holds a success, the engine has answered as
  \<open>text/template\<close> does, "b" is the one name defined in the association of the receiver's
  text, and the engine's clone lists "b": both clones fail.
\<close>

theorem clone_after_execution_witness:
  "is_handle ex_failed 0 \<and> escapeErr (heap ex_failed 0) \<noteq> None \<and>
   Clone ex_failed 0 (ex_engine_a, Inr (1, [1])) = (Inl (CloneAfterExecution ''a''), ex_failed) \<and>
   is_handle ex_b_done 0 \<and> escapeErr (heap ex_b_done 0) = None \<and>
   registry ex_b_done 0 ''b'' = Some 1 \<and> escapeErr (heap ex_b_done 1) = Some escapeOK \<and>
   contract init_state
     [Op_New ''a'', Op_AddParseTree 0 ''b'' (Some 0) (ex_engine_b, Inr 1),
      Op_ExecuteTemplate 0 ''b'' None None] \<and>
   {k. text_Lookup (eng ex_b_done) (textT (heap ex_b_done 0)) k \<noteq> None} = {''b''} \<and>
   (\<lambda>x. text_name (texts ex_engine_clone x)) ` set [3] = {''b''} \<and>
   fst (Clone ex_b_done 0 (ex_engine_clone, Inr (2, [3]))) = Inl (CloneAfterExecution ''a'') \<and>
   heap (snd (Clone ex_b_done 0 (ex_engine_clone, Inr (2, [3])))) 1 = heap ex_b_done 1 \<and>
   spaces (snd (Clone ex_b_done 0 (ex_engine_clone, Inr (2, [3])))) 0 = spaces ex_b_done 0"
proof -
  have e1: "run [Op_New ''a'', Op_Parse 0 ''x'' (ex_engine_a, Inr [0]),
                 Op_Execute 0 (Some ''bad'') None] = ex_failed"
    by (simp add: ex_failed_def)
  have e2: "run [Op_New ''a'', Op_AddParseTree 0 ''b'' (Some 0) (ex_engine_b, Inr 1),
                 Op_ExecuteTemplate 0 ''b'' None None] = ex_b_done"
    by (simp add: ex_b_done_def)
  have h: "is_handle ex_failed 0" "escapeErr (heap ex_failed 0) \<noteq> None"
    "Name ex_failed 0 = ''a''"
    "is_handle ex_b_done 0" "escapeErr (heap ex_b_done 0) = None"
    "registry ex_b_done 0 ''b'' = Some 1" "escapeErr (heap ex_b_done 1) = Some escapeOK"
    "Name ex_b_done 0 = ''a''" "Name (ex_b_done\<lparr>eng := ex_engine_clone\<rparr>) 0 = ''a''"
    "nextT ex_b_done = 2" "nextNs ex_b_done = 1"
    "''b'' \<in> (\<lambda>x. text_name (texts ex_engine_clone x)) ` set [3]"
    by (simp_all add: eval_defs)
  have c: "contract init_state
     [Op_New ''a'', Op_AddParseTree 0 ''b'' (Some 0) (ex_engine_b, Inr 1),
      Op_ExecuteTemplate 0 ''b'' None None]"
    by (simp add: eval_defs AddParseTree_answer_ok_def engine_ok_def engine_extends_def
        less_Suc_eq eval_nat_numeral)
  have d: "{k. text_Lookup (eng ex_b_done) (textT (heap ex_b_done 0)) k \<noteq> None} = {''b''}"
    "(\<lambda>x. text_name (texts ex_engine_clone x)) ` set [3] = {''b''}"
    by (auto simp: eval_defs split: if_splits)
  from d have ls: "\<forall>k. text_Lookup (eng ex_b_done) (textT (heap ex_b_done 0)) k \<noteq> None \<longrightarrow>
        k \<in> (\<lambda>x. text_name (texts ex_engine_clone x)) ` set [3]"
    by blast
  from clone_after_execution[OF h(1)[folded e1], of "(ex_engine_a, Inr (1, [1]))"]
    clone_after_execution[OF h(4)[folded e2], of "(ex_engine_clone, Inr (2, [3]))" "''b''" 1
      ex_engine_clone "[3]" 2 1 0] h c ls d
  show ?thesis unfolding e1 e2 by simp
qed

text \<open>
  Claim C9. In a store reached by public calls, a \<open>Clone\<close> through a handle \<open>t\<close> that
  succeeds, the engine having answered with the clone \<open>tc\<close> of \<open>t\<close>'s text template and the
  list \<open>xs\<close> of its associated templates, each still holding the tree of the template it
  was cloned from,
  \<^item> returns a Template of a name space that did not exist before, which is not frozen;
    the Template is newly allocated, it is the entry of the new registry under the name of
    \<open>tc\<close>, and that is its name, \<open>t\<close>'s own name when the engine's clone keeps the name;
  \<^item> every entry of the new registry is a newly allocated Template of that name space,
    of the name under which it is registered, with no escape outcome;
  \<^item> provided the engine lists \<open>tc\<close> among its associated templates or \<open>tc\<close> has no tree
    (the engine associates a template when it gives it a tree), every tree of an entry
    is a tree allocated by the copy;
  \<^item> provided, moreover, the trees the listed templates came with are allocated: the
    text template of every entry holds the very tree the entry holds; an entry has a tree
    exactly when its text template came with one, and then the entry's tree is another
    tree than that one, allocated by the copy, with the contents that tree had, which it
    still has;
  \<^item> every Template, name space and tree that existed, and every text template outside
    \<open>xs\<close>, is left as it was.
\<close>

theorem clone_is_independent:
  assumes "is_handle (run cs) t"
    and "Clone (run cs) t (e, Inr (tc, xs)) = (Inr res, s')"
  shows
   "(\<exists>r. res = Some r \<and>
         set_ns (spaces s' (nextNs (run cs))) (text_name (texts e tc)) = Some r \<and>
         Name s' r = text_name (texts e tc) \<and>
         (text_name (texts e tc) = Name (run cs) t \<longrightarrow>
            set_ns (spaces s' (nextNs (run cs))) (Name (run cs) t) = Some r \<and>
            Name s' r = Name (run cs) t) \<and>
         nameSpace (heap s' r) = nextNs (run cs) \<and> nextT (run cs) \<le> r) \<and>
    \<not> escaped (spaces s' (nextNs (run cs))) \<and>
    (set_ns (spaces s' (nextNs (run cs))) k = Some q \<longrightarrow>
       Name s' q = k \<and> nextT (run cs) \<le> q \<and> escapeErr (heap s' q) = None \<and>
       nameSpace (heap s' q) = nextNs (run cs) \<and>
       ((text_name (texts e tc) \<in> (\<lambda>x. text_name (texts e x)) ` set xs \<or>
         text_Tree (texts e tc) = None) \<and> Tree (heap s' q) = Some tr \<longrightarrow>
          nextTree e \<le> tr)) \<and>
    ((text_name (texts e tc) \<in> (\<lambda>x. text_name (texts e x)) ` set xs \<or>
      text_Tree (texts e tc) = None) \<and>
     (\<forall>x\<in>set xs. \<forall>a. text_Tree (texts e x) = Some a \<longrightarrow> a < nextTree e) \<and>
     set_ns (spaces s' (nextNs (run cs))) k = Some q \<longrightarrow>
       text_Tree (texts (eng s') (textT (heap s' q))) = Tree (heap s' q) \<and>
       (case text_Tree (texts e (textT (heap s' q))) of
          None \<Rightarrow> Tree (heap s' q) = None
        | Some a \<Rightarrow>
            (\<exists>c. Tree (heap s' q) = Some c \<and> nextTree e \<le> c \<and> c \<noteq> a \<and>
                 trees (eng s') c = trees e a \<and> trees (eng s') a = trees e a))) \<and>
    (p < nextT (run cs) \<longrightarrow> heap s' p = heap (run cs) p) \<and>
    (ns < nextNs (run cs) \<longrightarrow> spaces s' ns = spaces (run cs) ns) \<and>
    (a < nextTree e \<longrightarrow> trees (eng s') a = trees e a) \<and>
    (y \<notin> set xs \<longrightarrow> texts (eng s') y = texts e y)"
proof -
  let ?s = "run cs"
  let ?s1 = "snd (Clone_start (?s\<lparr>eng := e\<rparr>) tc)"
  let ?ret = "nextT ?s"
  let ?n = "nextNs ?s"
  let ?k0 = "text_name (texts e tc)"
  let ?listed = "?k0 \<in> (\<lambda>x. text_name (texts e x)) ` set xs \<or> text_Tree (texts e tc) = None"
  note f = Clone_start_fields[of "?s\<lparr>eng := e\<rparr>" tc]
  have u: "escapeErr (heap ?s t) = None"
  proof (rule ccontr)
    assume "escapeErr (heap ?s t) \<noteq> None"
    with assms(2) show False by (simp add: Clone_def)
  qed
  from assms(2) have l: "fst (Clone_loop ?s1 t ?ret xs) = None"
    and s': "s' = snd (Clone_loop ?s1 t ?ret xs)"
    and res: "res = registry s' ?ret (Name s' ?ret)"
    unfolding Clone_unfold[OF u] by (auto simp: Let_def split: option.splits)
  have n1: "nameSpace (heap ?s1 ?ret) = ?n" by (simp add: f)
  have 1: "clone_ok ?s1 ?ret (nextTree e)"
    unfolding clone_ok_def n1 by (auto simp: f Name_def split: if_splits)
  have 2: "?ret < nextT ?s1" by (simp add: f)
  have 3: "nextTree e \<le> nextTree (eng ?s1)" by (simp add: f)
  note b = Clone_loop_builds[OF 1 2 3 l, unfolded n1, folded s']
  from b[of ?k0] have ok: "clone_ok s' ?ret (nextTree e)"
    and esc: "\<not> escaped (spaces s' ?n)"
    and names: "\<And>y. text_name (texts (eng s') y) = text_name (texts e y)"
    and trees: "\<And>y. y < nextTree e \<Longrightarrow> trees (eng s') y = trees e y"
    and texts: "\<And>y. y \<notin> set xs \<Longrightarrow> texts (eng s') y = texts e y"
    by (simp_all add: f)
  from b[of ?k0] have key: "set_ns (spaces s' ?n) ?k0 \<noteq> None" by (simp add: f)
  from b[of ?k0] have gone: "\<forall>k. set_ns (spaces s' ?n) k \<noteq> Some ?ret"
    if "?k0 \<in> (\<lambda>x. text_name (texts e x)) ` set xs"
    using that by (simp add: f Name_def)
  have hr: "heap s' ?ret = heap ?s1 ?ret" unfolding s' by (rule Clone_loop_old[OF 2])
  have nr: "nameSpace (heap s' ?ret) = ?n" "Tree (heap s' ?ret) = text_Tree (texts e tc)"
    "Name s' ?ret = ?k0" "textT (heap s' ?ret) = tc"
    by (simp_all add: hr f Name_def names)
  from key obtain r where r: "set_ns (spaces s' ?n) ?k0 = Some r" by auto
  note d = clone_okD[OF ok, unfolded nr]
  have A: "\<exists>r. res = Some r \<and> set_ns (spaces s' ?n) ?k0 = Some r \<and> Name s' r = ?k0 \<and>
         (?k0 = Name ?s t \<longrightarrow> set_ns (spaces s' ?n) (Name ?s t) = Some r \<and>
            Name s' r = Name ?s t) \<and>
         nameSpace (heap s' r) = ?n \<and> ?ret \<le> r"
    using r d(1,2,5)[OF r] unfolding res by (auto simp: registry_def nr)
  have fresh: "nextTree e \<le> tr"
    if q: "set_ns (spaces s' ?n) k = Some q" and h: "?listed" "Tree (heap s' q) = Some tr"
    for k q tr
  proof (cases "q = ?ret")
    case True
    with q gone have "?k0 \<notin> (\<lambda>x. text_name (texts e x)) ` set xs" by blast
    with h True show ?thesis by (simp add: nr)
  next
    case False
    from d(6)[OF q False h(2)] show ?thesis by simp
  qed
  have B: "Name s' q = k \<and> ?ret \<le> q \<and> escapeErr (heap s' q) = None \<and>
       nameSpace (heap s' q) = ?n \<and> (?listed \<and> Tree (heap s' q) = Some tr \<longrightarrow> nextTree e \<le> tr)"
    if q: "set_ns (spaces s' ?n) k = Some q"
    using d(1,2,4,5)[OF q] fresh[OF q] by auto
  have E: "text_Tree (texts (eng s') (textT (heap s' q))) = Tree (heap s' q) \<and>
       (case text_Tree (texts e (textT (heap s' q))) of
          None \<Rightarrow> Tree (heap s' q) = None
        | Some a \<Rightarrow>
            (\<exists>c. Tree (heap s' q) = Some c \<and> nextTree e \<le> c \<and> c \<noteq> a \<and>
                 trees (eng s') c = trees e a \<and> trees (eng s') a = trees e a))"
    if h: "?listed" and al: "\<forall>x\<in>set xs. \<forall>a. text_Tree (texts e x) = Some a \<longrightarrow> a < nextTree e"
      and q: "set_ns (spaces s' ?n) k = Some q"
  proof (cases "q = ?ret")
    case True
    with q gone have nl: "?k0 \<notin> (\<lambda>x. text_name (texts e x)) ` set xs" by blast
    with h have nt: "text_Tree (texts e tc) = None" by simp
    from nl have "tc \<notin> set xs" by auto
    from texts[OF this] nt show ?thesis unfolding True by (simp add: nr)
  next
    case False
    have 0: "copies_ok ?s1 ?ret e (set xs)"
      unfolding copies_ok_def n1 using al
      by (auto simp: f split: if_splits option.splits)
    have "copies_ok s' ?ret e (set xs)"
      unfolding s' by (rule copies_ok_loop[OF 0 1 2 3 subset_refl l])
    note p = copies_okD[OF this, unfolded nr]
    from p(1)[OF q False] have x: "textT (heap s' q) \<in> set xs"
      and eq: "text_Tree (texts (eng s') (textT (heap s' q))) = Tree (heap s' q)"
      by simp_all
    show ?thesis
    proof (cases "text_Tree (texts e (textT (heap s' q)))")
      case None
      from p(2)[OF x None] eq None show ?thesis by simp
    next
      case (Some a)
      from p(3)[OF x Some] obtain c where
        c: "text_Tree (texts (eng s') (textT (heap s' q))) = Some c"
          "trees (eng s') c = trees e a"
        by blast
      from c(1) eq have tq: "Tree (heap s' q) = Some c" by simp
      from al x Some have a: "a < nextTree e" by blast
      from fresh[OF q h tq] a trees[OF a] c(2) tq eq Some show ?thesis by simp
    qed
  qed
  have C: "p < ?ret \<longrightarrow> heap s' p = heap ?s p"
    using Clone_old[of p ?s t "(e, Inr (tc, xs))"] assms(2) by simp
  have D: "ns < ?n \<longrightarrow> spaces s' ns = spaces ?s ns"
    using Clone_spaces_old[of ns ?s t "(e, Inr (tc, xs))"] assms(2) by simp
  from A B C D E esc trees texts show ?thesis by blast
qed

text \<open>
  At \<open>ex_b\<close> the Template 1, named "b", holds the tree 0. With the engine's answer
  \<open>ex_engine_clone\<close>, in which the clone 3 of the text template "b" still holds the tree 0,
  the clone through the Template 0 succeeds. The new name space is 1; it holds the new
  Templates 2 ("a", no tree) and 3 ("b"), and the Template 2 is returned. The Template 3
  and its text template 3 hold the new tree 1, which has the contents of the tree 0; the
  Template 1 still holds the tree 0, which is as it was.
\<close>

theorem clone_is_independent_witness:
  "is_handle ex_b 0 \<and>
   fst (Clone ex_b 0 (ex_engine_clone, Inr (2, [3]))) = Inr (Some 2) \<and>
   Name (snd (Clone ex_b 0 (ex_engine_clone, Inr (2, [3])))) 2 = ''a'' \<and>
   Name ex_b 0 = ''a'' \<and> nextNs ex_b = 1 \<and> nextT ex_b = 2 \<and>
   \<not> escaped (spaces (snd (Clone ex_b 0 (ex_engine_clone, Inr (2, [3])))) 1) \<and>
   set_ns (spaces (snd (Clone ex_b 0 (ex_engine_clone, Inr (2, [3])))) 1) ''a'' = Some 2 \<and>
   set_ns (spaces (snd (Clone ex_b 0 (ex_engine_clone, Inr (2, [3])))) 1) ''b'' = Some 3 \<and>
   text_Tree (texts ex_engine_clone 3) = Some 0 \<and>
   textT (heap (snd (Clone ex_b 0 (ex_engine_clone, Inr (2, [3])))) 3) = 3 \<and>
   Tree (heap (snd (Clone ex_b 0 (ex_engine_clone, Inr (2, [3])))) 3) = Some 1 \<and>
   text_Tree (texts (eng (snd (Clone ex_b 0 (ex_engine_clone, Inr (2, [3]))))) 3) = Some 1 \<and>
   trees (eng (snd (Clone ex_b 0 (ex_engine_clone, Inr (2, [3]))))) 1 = trees ex_engine_clone 0 \<and>
   trees (eng (snd (Clone ex_b 0 (ex_engine_clone, Inr (2, [3]))))) 1 = \<lparr>Root = Some ''x''\<rparr> \<and>
   Tree (heap (snd (Clone ex_b 0 (ex_engine_clone, Inr (2, [3])))) 1) = Some 0 \<and>
   nextTree ex_engine_clone = 1 \<and>
   heap (snd (Clone ex_b 0 (ex_engine_clone, Inr (2, [3])))) 1 = heap ex_b 1 \<and>
   spaces (snd (Clone ex_b 0 (ex_engine_clone, Inr (2, [3])))) 0 = spaces ex_b 0 \<and>
   trees (eng (snd (Clone ex_b 0 (ex_engine_clone, Inr (2, [3]))))) 0 = trees ex_engine_clone 0"
proof -
  let ?c = "Clone ex_b 0 (ex_engine_clone, Inr (2, [3]))"
  have e: "run [Op_New ''a'', Op_AddParseTree 0 ''b'' (Some 0) (ex_engine_b, Inr 1)] = ex_b"
    by (simp add: ex_b_def)
  have h: "is_handle ex_b 0" by (simp add: eval_defs)
  have v: "fst ?c = Inr (Some 2)" "Name ex_b 0 = ''a''" "nextNs ex_b = 1" "nextT ex_b = 2"
    "set_ns (spaces (snd ?c) 1) ''b'' = Some 3" "textT (heap (snd ?c) 3) = 3"
    "nextTree ex_engine_clone = 1"
    "text_Tree (texts ex_engine_clone 2) = None" "text_name (texts ex_engine_clone 2) = ''a''"
    "text_Tree (texts ex_engine_clone 3) = Some 0"
    "Tree (heap ex_b 1) = Some 0" "trees ex_engine_clone 0 = \<lparr>Root = Some ''x''\<rparr>"
    "Tree (heap (snd ?c) 3) = Some 1" "text_Tree (texts (eng (snd ?c)) 3) = Some 1"
    "trees (eng (snd ?c)) 1 = \<lparr>Root = Some ''x''\<rparr>"
    by (simp_all add: eval_defs)
  have al: "\<forall>x\<in>set [3]. \<forall>a. text_Tree (texts ex_engine_clone x) = Some a \<longrightarrow>
              a < nextTree ex_engine_clone"
    by (simp add: eval_defs)
  have c: "Clone ex_b 0 (ex_engine_clone, Inr (2, [3])) = (Inr (Some 2), snd ?c)"
    using v(1) by (simp add: prod_eq_iff)
  note th = clone_is_independent[OF h[folded e] c[folded e], of "''b''" 3 1 1 0 0 2, unfolded e]
  from th v al show ?thesis using h by (auto simp: v)
qed

text \<open>
  Claim C10. Take any sequence of public calls from the empty store in which the engine
  answers as \<open>text/template\<close> does: its state stays in order and only grows, \<open>Parse\<close> lists
  templates associated with the receiver's text, \<open>AddParseTree\<close> returns a template of the
  given name associated with the receiver's text, and \<open>Clone\<close> lists templates associated
  with the clone. Then, through any handle, \<open>ExecuteTemplate\<close> does not panic: it returns no
  error or an error that is not a panic, whatever the escaper and the engine's \<open>Execute\<close>
  report. The reason is that a name whose registry entry has a text template with a tree is
  defined in the engine's association of the receiver's text, so the test before the panic
  "template escaping out of sync" never succeeds.
\<close>

theorem escaping_in_sync:
  assumes "contract init_state cs" and "is_handle (run cs) t"
  shows "fst (ExecuteTemplate (run cs) t nm outcome res) \<noteq> Some (Panic m) \<and>
         (registry (run cs) t nm = Some r \<and>
          text_Tree (texts (eng (run cs)) (textT (heap (run cs) r))) \<noteq> None \<longrightarrow>
            text_Lookup (eng (run cs)) (textT (heap (run cs) t)) nm \<noteq> None)"
proof -
  let ?s = "run cs"
  have w: "store_ok ?s" by (rule ok_run)
  have y: "sync_ok ?s" by (rule sync_run[OF assms(1)])
  from assms(2) have t: "t < nextT ?s" by (simp add: is_handle_def)
  from ExecuteTemplate_no_panic[OF y w t] in_step_Lookup[OF y w t] show ?thesis by blast
qed

text \<open>
  The calls that lead to \<open>ex_b\<close> are such a sequence: the engine's answer to \<open>AddParseTree\<close>
  holds the new text template 1, named "b", in the association of the text template 0 and
  defined there. \<open>ExecuteTemplate\<close> of "b" through the Template 0 finds the entry 1, finds
  "b" in the engine's association, and returns no error.
\<close>

theorem escaping_in_sync_witness:
  "contract init_state
     [Op_New ''a'', Op_AddParseTree 0 ''b'' (Some 0) (ex_engine_b, Inr 1)] \<and>
   is_handle ex_b 0 \<and> registry ex_b 0 ''b'' = Some 1 \<and>
   text_Tree (texts (eng ex_b) (textT (heap ex_b 1))) = Some 0 \<and>
   text_Lookup (eng ex_b) (textT (heap ex_b 0)) ''b'' \<noteq> None \<and>
   fst (ExecuteTemplate ex_b 0 ''b'' None None)
     \<noteq> Some (Panic ''html/template internal error: template escaping out of sync'') \<and>
   fst (ExecuteTemplate ex_b 0 ''b'' None None) = None"
proof -
  let ?cs = "[Op_New ''a'', Op_AddParseTree 0 ''b'' (Some 0) (ex_engine_b, Inr 1)]"
  have e: "run ?cs = ex_b" by (simp add: ex_b_def)
  have c: "contract init_state ?cs"
    by (simp add: eval_defs AddParseTree_answer_ok_def engine_ok_def engine_extends_def
        less_Suc_eq eval_nat_numeral)
  have h: "is_handle (run ?cs) 0" by (simp add: eval_defs)
  have r: "registry ex_b 0 ''b'' = Some 1"
    "text_Tree (texts (eng ex_b) (textT (heap ex_b 1))) = Some 0"
    "fst (ExecuteTemplate ex_b 0 ''b'' None None) = None"
    by (simp_all add: eval_defs)
  have h': "is_handle ex_b 0" using h unfolding e .
  note th = escaping_in_sync[OF c h, of "''b''" None None
      "''html/template internal error: template escaping out of sync''" 1, unfolded e]
  from th have p: "fst (ExecuteTemplate ex_b 0 ''b'' None None)
     \<noteq> Some (Panic ''html/template internal error: template escaping out of sync'')"
    by (rule conjunct1)
  from th r(1,2) have l: "text_Lookup (eng ex_b) (textT (heap ex_b 0)) ''b'' \<noteq> None"
    by simp
  show ?thesis
    by (intro conjI) (rule c, rule h', rule r(1), rule r(2), rule l, rule p, rule r(3))
qed

text \<open>
  The hypothesis on the engine cannot be dropped. If the engine answered a \<open>Parse\<close> with a
  template that has a tree while its name is not defined in its association, the sequence
  would not be one of those above, and \<open>ExecuteTemplate\<close> would panic.
\<close>

lemma out_of_step_engine:
  "\<not> contract init_state [Op_New ''a'', Op_Parse 0 ''x'' (ex_engine_unassociated, Inr [0])] \<and>
   fst (ExecuteTemplate (run [Op_New ''a'', Op_Parse 0 ''x'' (ex_engine_unassociated, Inr [0])])
          0 ''a'' None None)
     = Some (Panic ''html/template internal error: template escaping out of sync'')"
  by (simp add: eval_defs ex_engine_unassociated_def Parse_answer_ok_def engine_ok_def)

end
